theory Spec2Isabelle
  imports Complex_Main
begin

section \<open>Conjugate gradient solver (conjugate\_gradients.cpp): the embedding\<close>

subsection \<open>Doubles in exact arithmetic\<close>

text \<open>
  A \<open>double\<close> is modelled in exact arithmetic: a finite value is a real number, and
  rounding is not modelled. What IEEE arithmetic does outside the finite numbers is kept:
  \<open>NonFin\<close> stands for any non-finite double (NaN, +Inf or -Inf). A division by zero
  and the square root of a negative number give \<open>NonFin\<close>, every operation on
  \<open>NonFin\<close> gives \<open>NonFin\<close>, and a comparison with \<open>NonFin\<close> is false (for the one
  comparison of the program, \<open>sqrt(rr / bb) < rel_error\<close>, this is what IEEE does for
  NaN and for an infinite left operand). The model does not tell the infinities from NaN,
  and has no signed zero: where IEEE gives a finite quotient for a number divided by an
  infinity, the model gives \<open>NonFin\<close>.
\<close>

datatype dbl = Fin real | NonFin

instantiation dbl :: "{zero, one, plus, minus, times, uminus, inverse}"
begin

definition zero_dbl :: dbl where "zero_dbl = Fin 0"

definition one_dbl :: dbl where "one_dbl = Fin 1"

fun plus_dbl :: "dbl \<Rightarrow> dbl \<Rightarrow> dbl" where
  "plus_dbl (Fin a) (Fin b) = Fin (a + b)"
| "plus_dbl _ _ = NonFin"

fun minus_dbl :: "dbl \<Rightarrow> dbl \<Rightarrow> dbl" where
  "minus_dbl (Fin a) (Fin b) = Fin (a - b)"
| "minus_dbl _ _ = NonFin"

fun times_dbl :: "dbl \<Rightarrow> dbl \<Rightarrow> dbl" where
  "times_dbl (Fin a) (Fin b) = Fin (a * b)"
| "times_dbl _ _ = NonFin"

fun uminus_dbl :: "dbl \<Rightarrow> dbl" where
  "uminus_dbl (Fin a) = Fin (- a)"
| "uminus_dbl NonFin = NonFin"

fun divide_dbl :: "dbl \<Rightarrow> dbl \<Rightarrow> dbl" where
  "divide_dbl (Fin a) (Fin b) = (if b = 0 then NonFin else Fin (a / b))"
| "divide_dbl _ _ = NonFin"

fun inverse_dbl :: "dbl \<Rightarrow> dbl" where
  "inverse_dbl (Fin b) = (if b = 0 then NonFin else Fin (1 / b))"
| "inverse_dbl NonFin = NonFin"

instance ..

end

instance dbl :: comm_monoid_add
proof
  fix u v w :: dbl
  show "0 + u = u"
    unfolding zero_dbl_def by (cases u) auto
  show "u + v = v + u"
    by (cases u) (cases v, auto)+
  show "u + v + w = u + (v + w)"
    by (cases u; cases v) (cases w, auto)+
qed

text \<open>\<open>sqrt\<close> of \<open>cmath\<close>, and the comparison \<open><\<close> of two doubles.\<close>

fun dsqrt :: "dbl \<Rightarrow> dbl" where
  "dsqrt (Fin a) = (if a < 0 then NonFin else Fin (sqrt a))"
| "dsqrt NonFin = NonFin"

fun dlt :: "dbl \<Rightarrow> dbl \<Rightarrow> bool" where
  "dlt (Fin a) (Fin b) = (a < b)"
| "dlt _ _ = False"

type_synonym vec = "dbl list"

subsection \<open>Undefined behaviour as an error value\<close>

text \<open>
  The program has no error returns of its own in the solver. The two ways it can leave
  defined behaviour are modelled as error values: an array access outside the buffer, and
  the overflow of the \<open>int\<close> loop counter \<open>num_iters\<close>.

  Sizes and indices (\<open>size_t\<close>) are natural numbers: the products \<open>rank * local_size\<close>
  and \<open>r * num_cols + c\<close> are indices into buffers that exist in memory, far below
  \<open>2 ^ 64\<close>. The communicator size \<open>size_mpi\<close> is a parameter of every distributed
  function; MPI gives \<open>0 < size_mpi\<close> and \<open>rank < size_mpi\<close>.
\<close>

datatype error = OutOfBounds | SignedOverflow

text \<open>Runs \<open>f\<close> on the ranks \<open>ks\<close> in turn and collects the results; the first error wins.\<close>

fun all_ranks :: "(nat \<Rightarrow> error + 'a) \<Rightarrow> nat list \<Rightarrow> error + 'a list" where
  "all_ranks f [] = Inr []"
| "all_ranks f (k # ks) =
     (case f k of Inl e \<Rightarrow> Inl e
      | Inr v \<Rightarrow> (case all_ranks f ks of Inl e \<Rightarrow> Inl e | Inr vs \<Rightarrow> Inr (v # vs)))"

subsection \<open>dot and dotP\<close>

text \<open>
  \<open>dot\<close> (lines 64-70): the serial loop \<open>result += x[i] * y[i]\<close> for \<open>i\<close> from 0 to
  \<open>size\<close>. The parameter \<open>size\<close> is written \<open>sz\<close>.
\<close>

function dot_loop :: "vec \<Rightarrow> vec \<Rightarrow> nat \<Rightarrow> nat \<Rightarrow> dbl \<Rightarrow> error + dbl" where
  "dot_loop x y sz i result =
     (if i < sz then
        (if i < length x \<and> i < length y
         then dot_loop x y sz (Suc i) (result + x ! i * y ! i)
         else Inl OutOfBounds)
      else Inr result)"
  by pat_completeness auto
termination
  by (relation "measure (\<lambda>(x, y, sz, i, result). sz - i)") auto

declare dot_loop.simps [simp del]

definition dot :: "vec \<Rightarrow> vec \<Rightarrow> nat \<Rightarrow> error + dbl" where
  "dot x y sz = dot_loop x y sz 0 0"

text \<open>
  \<open>dotP\<close> (lines 122-141). \<open>dotP_local\<close> is what one rank computes before the
  collective: its segment bounds and the loop \<open>local_sum += x[i] * y[i]\<close> (the OpenMP
  reduction adds the same terms; in exact arithmetic the order does not matter).
  The local variable \<open>end\<close> is written \<open>endi\<close>.
\<close>

function dotP_loop :: "vec \<Rightarrow> vec \<Rightarrow> nat \<Rightarrow> nat \<Rightarrow> dbl \<Rightarrow> error + dbl" where
  "dotP_loop x y endi i local_sum =
     (if i < endi then
        (if i < length x \<and> i < length y
         then dotP_loop x y endi (Suc i) (local_sum + x ! i * y ! i)
         else Inl OutOfBounds)
      else Inr local_sum)"
  by pat_completeness auto
termination
  by (relation "measure (\<lambda>(x, y, endi, i, local_sum). endi - i)") auto

declare dotP_loop.simps [simp del]

definition dotP_local :: "nat \<Rightarrow> nat \<Rightarrow> vec \<Rightarrow> vec \<Rightarrow> nat \<Rightarrow> error + dbl" where
  "dotP_local size_mpi rank x y sz =
     (let local_size = sz div size_mpi;
          start = rank * local_size;
          endi = (if rank = size_mpi - 1 then sz else start + local_size)
      in dotP_loop x y endi start 0)"

text \<open>
  \<open>MPI_Allreduce\<close> with \<open>MPI_SUM\<close> on one double: every rank receives the sum of the
  values sent by the ranks \<open>0 .. size_mpi - 1\<close>.
\<close>

definition MPI_Allreduce_SUM :: "dbl list \<Rightarrow> dbl" where
  "MPI_Allreduce_SUM sendbufs = sum_list sendbufs"

text \<open>
  The value \<open>dotP\<close> returns on every rank, when all ranks call it on the same (replicated)
  \<open>x\<close>, \<open>y\<close> and \<open>size\<close>.
\<close>

definition dotP :: "nat \<Rightarrow> vec \<Rightarrow> vec \<Rightarrow> nat \<Rightarrow> error + dbl" where
  "dotP size_mpi x y sz =
     (case all_ranks (\<lambda>rank. dotP_local size_mpi rank x y sz) [0..<size_mpi] of
        Inl e \<Rightarrow> Inl e
      | Inr local_sums \<Rightarrow> Inr (MPI_Allreduce_SUM local_sums))"

subsection \<open>axpbyP\<close>

text \<open>
  \<open>axpbyP\<close> (lines 79-84): \<open>y[i] = alpha * x[i] + beta * y[i]\<close> for \<open>i\<close> from 0 to
  \<open>size\<close>, on the whole vector on every rank; it returns the new contents of \<open>y\<close>.
  The solver never passes the same buffer as \<open>x\<close> and \<open>y\<close>.
\<close>

function axpbyP_loop :: "dbl \<Rightarrow> vec \<Rightarrow> dbl \<Rightarrow> vec \<Rightarrow> nat \<Rightarrow> nat \<Rightarrow> error + vec" where
  "axpbyP_loop alpha x beta y sz i =
     (if i < sz then
        (if i < length x \<and> i < length y
         then axpbyP_loop alpha x beta (y[i := alpha * x ! i + beta * y ! i]) sz (Suc i)
         else Inl OutOfBounds)
      else Inr y)"
  by pat_completeness auto
termination
  by (relation "measure (\<lambda>(alpha, x, beta, y, sz, i). sz - i)") auto

declare axpbyP_loop.simps [simp del]

definition axpbyP :: "dbl \<Rightarrow> vec \<Rightarrow> dbl \<Rightarrow> vec \<Rightarrow> nat \<Rightarrow> error + vec" where
  "axpbyP alpha x beta y sz = axpbyP_loop alpha x beta y sz 0"

subsection \<open>gemvP\<close>

text \<open>
  \<open>new double[n]\<close> returns \<open>n\<close> cells of indeterminate content. The content is a
  parameter \<open>junk\<close> of the model (cell \<open>i\<close> of a fresh buffer holds \<open>junk i\<close>), so that
  a theorem for every \<open>junk\<close> does not depend on what the cells held.
\<close>

definition new_double :: "(nat \<Rightarrow> dbl) \<Rightarrow> nat \<Rightarrow> vec" where
  "new_double junk n = map junk [0..<n]"

text \<open>
  The inner loop of \<open>gemvP\<close> (lines 110-113): \<open>y_val += A[r * num_cols + c] * x[c]\<close>.
  The OpenMP reduction adds the same terms to \<open>y_val\<close>; the model adds them in the
  order of \<open>c\<close>.
\<close>

function gemvP_cols :: "vec \<Rightarrow> vec \<Rightarrow> nat \<Rightarrow> nat \<Rightarrow> nat \<Rightarrow> dbl \<Rightarrow> error + dbl" where
  "gemvP_cols A x r num_cols c y_val =
     (if c < num_cols then
        (if r * num_cols + c < length A \<and> c < length x
         then gemvP_cols A x r num_cols (Suc c) (y_val + A ! (r * num_cols + c) * x ! c)
         else Inl OutOfBounds)
      else Inr y_val)"
  by pat_completeness auto
termination
  by (relation "measure (\<lambda>(A, x, r, num_cols, c, y_val). num_cols - c)") auto

declare gemvP_cols.simps [simp del]

text \<open>
  The loop over the rows of one rank (lines 108-115): it reads \<open>y[r]\<close> and writes
  \<open>local_y[r - start_row]\<close>.
\<close>

function gemvP_rows ::
  "dbl \<Rightarrow> vec \<Rightarrow> vec \<Rightarrow> dbl \<Rightarrow> vec \<Rightarrow> nat \<Rightarrow> nat \<Rightarrow> nat \<Rightarrow> nat \<Rightarrow> vec \<Rightarrow> error + vec" where
  "gemvP_rows alpha A x beta y num_cols start_row end_row r local_y =
     (if r < end_row then
        (case gemvP_cols A x r num_cols 0 0 of
           Inl e \<Rightarrow> Inl e
         | Inr y_val \<Rightarrow>
             if r < length y \<and> r - start_row < length local_y
             then gemvP_rows alpha A x beta y num_cols start_row end_row (Suc r)
                    (local_y[r - start_row := beta * y ! r + alpha * y_val])
             else Inl OutOfBounds)
      else Inr local_y)"
  by pat_completeness auto
termination
  by (relation "measure (\<lambda>(alpha, A, x, beta, y, num_cols, start_row, end_row, r, local_y).
        end_row - r)") auto

declare gemvP_rows.simps [simp del]

text \<open>What one rank computes before the collective: its buffer \<open>local_y\<close> (lines 102-115).\<close>

definition gemvP_local ::
  "(nat \<Rightarrow> dbl) \<Rightarrow> nat \<Rightarrow> nat \<Rightarrow> dbl \<Rightarrow> vec \<Rightarrow> vec \<Rightarrow> dbl \<Rightarrow> vec \<Rightarrow> nat \<Rightarrow> nat \<Rightarrow> error + vec" where
  "gemvP_local junk size_mpi rank alpha A x beta y num_rows num_cols =
     (let local_num_rows = num_rows div size_mpi;
          start_row = rank * local_num_rows;
          end_row = (if rank = size_mpi - 1 then num_rows else (rank + 1) * local_num_rows);
          local_y = new_double junk local_num_rows
      in gemvP_rows alpha A x beta y num_cols start_row end_row start_row local_y)"

text \<open>
  \<open>MPI_Allgather\<close> with the same count \<open>cnt\<close> for sending and receiving: the first
  \<open>cnt\<close> cells of the send buffer of rank \<open>k\<close> go to the cells \<open>k * cnt .. (k + 1) * cnt - 1\<close>
  of the receive buffer of every rank; the other cells of the receive buffer are not
  written. Send buffers shorter than \<open>cnt\<close> and a receive buffer shorter than
  \<open>size_mpi * cnt\<close> are accesses out of bounds.
\<close>

definition MPI_Allgather :: "vec list \<Rightarrow> nat \<Rightarrow> vec \<Rightarrow> error + vec" where
  "MPI_Allgather sendbufs cnt recvbuf =
     (if list_all (\<lambda>sendbuf. cnt \<le> length sendbuf) sendbufs
         \<and> length sendbufs * cnt \<le> length recvbuf
      then Inr (concat (map (take cnt) sendbufs) @ drop (length sendbufs * cnt) recvbuf)
      else Inl OutOfBounds)"

text \<open>
  The contents of \<open>y\<close> on every rank after \<open>gemvP\<close> (lines 97-120), when all ranks call
  it on the same (replicated) arguments.
\<close>

definition gemvP ::
  "(nat \<Rightarrow> dbl) \<Rightarrow> nat \<Rightarrow> dbl \<Rightarrow> vec \<Rightarrow> vec \<Rightarrow> dbl \<Rightarrow> vec \<Rightarrow> nat \<Rightarrow> nat \<Rightarrow> error + vec" where
  "gemvP junk size_mpi alpha A x beta y num_rows num_cols =
     (case all_ranks (\<lambda>rank. gemvP_local junk size_mpi rank alpha A x beta y num_rows num_cols)
             [0..<size_mpi] of
        Inl e \<Rightarrow> Inl e
      | Inr local_ys \<Rightarrow> MPI_Allgather local_ys (num_rows div size_mpi) y)"

subsection \<open>conjugate\_gradients\<close>

text \<open>
  The memory the solver works on: the caller's \<open>A\<close>, \<open>b\<close> and \<open>x\<close>, and the three
  buffers \<open>r\<close>, \<open>p\<close>, \<open>Ap\<close> that the solver allocates. They are six distinct objects
  (\<open>main\<close> allocates \<open>sol\<close> apart from \<open>matrix\<close> and \<open>rhs\<close>), identical on every rank:
  \<open>main\<close> broadcasts \<open>A\<close> and \<open>b\<close>, and every statement of the solver computes the
  same values on every rank from them. The one exception is the content of the fresh
  \<open>Ap\<close> before the first \<open>gemvP\<close>, which may differ between the ranks: each rank reads
  only the cells \<open>Ap[r]\<close> of its own rows there, and \<open>junk\<close> stands for the cells that
  are read.
\<close>

record memory =
  buf_A :: vec
  buf_b :: vec
  buf_x :: vec
  buf_r :: vec
  buf_p :: vec
  buf_Ap :: vec

text \<open>The initialisation loop (lines 154-158).\<close>

function init_loop :: "memory \<Rightarrow> nat \<Rightarrow> nat \<Rightarrow> error + memory" where
  "init_loop m sz i =
     (if i < sz then
        (if i < length (buf_x m) \<and> i < length (buf_r m) \<and> i < length (buf_p m)
            \<and> i < length (buf_b m)
         then init_loop
                (m\<lparr>buf_x := (buf_x m)[i := 0],
                   buf_r := (buf_r m)[i := buf_b m ! i],
                   buf_p := (buf_p m)[i := buf_b m ! i]\<rparr>) sz (Suc i)
         else Inl OutOfBounds)
      else Inr m)"
  by pat_completeness auto
termination
  by (relation "measure (\<lambda>(m, sz, i). sz - i)") auto

declare init_loop.simps [simp del]

text \<open>
  The body of the main loop (lines 164-174) on the memory \<open>m\<close> and the scalar \<open>rr\<close>;
  \<open>bb\<close> does not change in the loop. The result is the new memory, the new \<open>rr\<close>, and
  whether the body left the loop by \<open>break\<close> (line 172), which happens before the
  update of \<open>p\<close> (line 174).
\<close>

definition cg_body ::
  "(nat \<Rightarrow> dbl) \<Rightarrow> nat \<Rightarrow> nat \<Rightarrow> dbl \<Rightarrow> dbl \<Rightarrow> memory \<Rightarrow> dbl \<Rightarrow> error + (memory \<times> dbl \<times> bool)" where
  "cg_body junk size_mpi sz rel_error bb m rr =
     (case gemvP junk size_mpi 1 (buf_A m) (buf_p m) 0 (buf_Ap m) sz sz of
        Inl e \<Rightarrow> Inl e
      | Inr Ap \<Rightarrow>
     (case dotP size_mpi (buf_p m) Ap sz of
        Inl e \<Rightarrow> Inl e
      | Inr pAp \<Rightarrow>
     (let alpha = rr / pAp in
     (case axpbyP alpha (buf_p m) 1 (buf_x m) sz of
        Inl e \<Rightarrow> Inl e
      | Inr x \<Rightarrow>
     (case axpbyP (- alpha) Ap 1 (buf_r m) sz of
        Inl e \<Rightarrow> Inl e
      | Inr r \<Rightarrow>
     (case dotP size_mpi r r sz of
        Inl e \<Rightarrow> Inl e
      | Inr rr_new \<Rightarrow>
     (let beta = rr_new / rr;
          rr' = rr_new
      in if dlt (dsqrt (rr' / bb)) rel_error
         then Inr (m\<lparr>buf_Ap := Ap, buf_x := x, buf_r := r\<rparr>, rr', True)
         else (case axpbyP 1 r beta (buf_p m) sz of
                 Inl e \<Rightarrow> Inl e
               | Inr p \<Rightarrow>
                   Inr (m\<lparr>buf_Ap := Ap, buf_x := x, buf_r := r, buf_p := p\<rparr>, rr', False)))))))))"

text \<open>
  The main loop (line 163): \<open>for (num_iters = 1; num_iters <= max_iters; num_iters++)\<close>.
  \<open>num_iters\<close> and \<open>max_iters\<close> are \<open>int\<close>; incrementing \<open>num_iters\<close> at \<open>INT_MAX\<close>
  is a signed overflow. The loop returns the memory, \<open>rr\<close> and \<open>num_iters\<close> as they are
  when it is left.
\<close>

definition INT_MAX :: int where
  "INT_MAX = 2147483647"

function cg_loop ::
  "(nat \<Rightarrow> dbl) \<Rightarrow> nat \<Rightarrow> nat \<Rightarrow> int \<Rightarrow> dbl \<Rightarrow> dbl \<Rightarrow> int \<Rightarrow> memory \<Rightarrow> dbl
     \<Rightarrow> error + (memory \<times> dbl \<times> int)" where
  "cg_loop junk size_mpi sz max_iters rel_error bb num_iters m rr =
     (if num_iters \<le> max_iters then
        (case cg_body junk size_mpi sz rel_error bb m rr of
           Inl e \<Rightarrow> Inl e
         | Inr (m', rr', brk) \<Rightarrow>
             if brk then Inr (m', rr', num_iters)
             else if num_iters = INT_MAX then Inl SignedOverflow
             else cg_loop junk size_mpi sz max_iters rel_error bb (num_iters + 1) m' rr')
      else Inr (m, rr, num_iters))"
  by pat_completeness auto
termination
  by (relation "measure (\<lambda>(junk, size_mpi, sz, max_iters, rel_error, bb, num_iters, m, rr).
        nat (max_iters + 1 - num_iters))") auto

declare cg_loop.simps [simp del]

text \<open>The line rank 0 prints at the end (lines 181-187), with its two numbers.\<close>

datatype report = Converged int dbl | DidNotConverge int dbl

text \<open>
  What the caller has after the call: the contents of its three buffers, the final value
  of \<open>num_iters\<close>, and the line printed by rank 0.
\<close>

record cg_result =
  res_A :: vec
  res_b :: vec
  res_x :: vec
  res_num_iters :: int
  res_log :: report

text \<open>\<open>conjugate_gradients\<close> (lines 143-188).\<close>

definition conjugate_gradients ::
  "(nat \<Rightarrow> dbl) \<Rightarrow> nat \<Rightarrow> vec \<Rightarrow> vec \<Rightarrow> vec \<Rightarrow> nat \<Rightarrow> int \<Rightarrow> dbl \<Rightarrow> error + cg_result" where
  "conjugate_gradients junk size_mpi A b x sz max_iters rel_error =
     (let r = new_double junk sz;
          p = new_double junk sz;
          Ap = new_double junk sz
      in
     (case init_loop \<lparr>buf_A = A, buf_b = b, buf_x = x, buf_r = r, buf_p = p, buf_Ap = Ap\<rparr> sz 0 of
        Inl e \<Rightarrow> Inl e
      | Inr m \<Rightarrow>
     (case dotP size_mpi (buf_b m) (buf_b m) sz of
        Inl e \<Rightarrow> Inl e
      | Inr bb \<Rightarrow>
     (case cg_loop junk size_mpi sz max_iters rel_error bb 1 m bb of
        Inl e \<Rightarrow> Inl e
      | Inr (m', rr, num_iters) \<Rightarrow>
          Inr \<lparr>res_A = buf_A m', res_b = buf_b m', res_x = buf_x m',
               res_num_iters = num_iters,
               res_log = (if num_iters \<le> max_iters
                          then Converged num_iters (dsqrt (rr / bb))
                          else DidNotConverge max_iters (dsqrt (rr / bb)))\<rparr>))))"

text \<open>Two contents of fresh memory for concrete runs: all zero, and all NaN.\<close>

definition fresh_zero :: "nat \<Rightarrow> dbl" where
  "fresh_zero i = 0"

definition fresh_nan :: "nat \<Rightarrow> dbl" where
  "fresh_nan i = NonFin"

subsection \<open>The mathematical objects the claims speak about\<close>

text \<open>
  Row \<open>r\<close> of \<open>alpha * A * x + beta * y\<close> for a row-major matrix with \<open>num_cols\<close>
  columns: \<open>beta * y[r] + alpha * (\<Sum>c. A[r, c] * x[c])\<close>.
\<close>

definition gemv_row :: "dbl \<Rightarrow> vec \<Rightarrow> vec \<Rightarrow> dbl \<Rightarrow> vec \<Rightarrow> nat \<Rightarrow> nat \<Rightarrow> dbl" where
  "gemv_row alpha A x beta y num_cols r =
     beta * y ! r + alpha * sum_list (map (\<lambda>c. A ! (r * num_cols + c) * x ! c) [0..<num_cols])"

text \<open>The inner product of the first \<open>n\<close> cells of two vectors.\<close>

definition inner :: "vec \<Rightarrow> vec \<Rightarrow> nat \<Rightarrow> dbl" where
  "inner u v n = sum_list (map (\<lambda>i. u ! i * v ! i) [0..<n])"

text \<open>The product of the row-major \<open>n * n\<close> matrix \<open>A\<close> with the vector \<open>p\<close>.\<close>

definition mat_vec :: "vec \<Rightarrow> vec \<Rightarrow> nat \<Rightarrow> vec" where
  "mat_vec A p n = map (\<lambda>r. sum_list (map (\<lambda>c. A ! (r * n + c) * p ! c) [0..<n])) [0..<n]"

text \<open>
  The \<open>n * n\<close> identity matrix in row-major order: cell \<open>k\<close> lies in row \<open>k div n\<close> and
  column \<open>k mod n\<close>.
\<close>

definition identity :: "nat \<Rightarrow> vec" where
  "identity n = map (\<lambda>k. if k div n = k mod n then 1 else 0) [0..<n * n]"

text \<open>
  One iteration as the specification words it (section 4.4, steps 1 to 7), on vectors of
  \<open>n\<close> cells: \<open>Ap = A p\<close>, \<open>alpha = rr / (p, Ap)\<close>, \<open>x = x + alpha p\<close>,
  \<open>r = r - alpha Ap\<close>, \<open>rr_new = (r, r)\<close>, \<open>beta = rr_new / rr\<close>, \<open>rr = rr_new\<close>,
  then the test \<open>sqrt (rr / bb) < rel_tol\<close>, which ends the loop before \<open>p\<close> is
  updated, and otherwise \<open>p = r + beta p\<close>.
\<close>

definition spec_iteration ::
  "nat \<Rightarrow> dbl \<Rightarrow> dbl \<Rightarrow> memory \<Rightarrow> dbl \<Rightarrow> memory \<times> dbl \<times> bool" where
  "spec_iteration n rel_tol bb m rr =
     (let Ap = mat_vec (buf_A m) (buf_p m) n;
          alpha = rr / inner (buf_p m) Ap n;
          x = map (\<lambda>i. buf_x m ! i + alpha * buf_p m ! i) [0..<n];
          r = map (\<lambda>i. buf_r m ! i - alpha * Ap ! i) [0..<n];
          rr_new = inner r r n;
          beta = rr_new / rr
      in if dlt (dsqrt (rr_new / bb)) rel_tol
         then (m\<lparr>buf_Ap := Ap, buf_x := x, buf_r := r\<rparr>, rr_new, True)
         else (m\<lparr>buf_Ap := Ap, buf_x := x, buf_r := r,
                 buf_p := map (\<lambda>i. r ! i + beta * buf_p m ! i) [0..<n]\<rparr>, rr_new, False))"

text \<open>
  The memory and \<open>rr\<close> at the iteration boundaries of a run. \<open>cg_start\<close> is the state
  in which the loop is entered: \<open>x = 0\<close>, \<open>r = b\<close>, \<open>p = b\<close>, \<open>Ap\<close> fresh.
  \<open>cg_iterate k\<close> is the state after \<open>k\<close> runs of the loop body of the source, or after
  fewer when a run has left the loop by \<open>break\<close> (the flag of the state says so).
\<close>

definition cg_start :: "(nat \<Rightarrow> dbl) \<Rightarrow> vec \<Rightarrow> vec \<Rightarrow> nat \<Rightarrow> memory" where
  "cg_start junk A b n =
     \<lparr>buf_A = A, buf_b = b, buf_x = replicate n 0, buf_r = b, buf_p = b,
      buf_Ap = new_double junk n\<rparr>"

fun cg_iterate ::
  "(nat \<Rightarrow> dbl) \<Rightarrow> nat \<Rightarrow> nat \<Rightarrow> dbl \<Rightarrow> dbl \<Rightarrow> memory \<Rightarrow> dbl \<Rightarrow> nat
     \<Rightarrow> error + (memory \<times> dbl \<times> bool)" where
  "cg_iterate junk size_mpi sz rel_error bb m rr 0 = Inr (m, rr, False)"
| "cg_iterate junk size_mpi sz rel_error bb m rr (Suc k) =
     (case cg_iterate junk size_mpi sz rel_error bb m rr k of
        Inl e \<Rightarrow> Inl e
      | Inr (m', rr', brk) \<Rightarrow>
          if brk then Inr (m', rr', brk) else cg_body junk size_mpi sz rel_error bb m' rr')"

text \<open>
  The buffers have the sizes the solver is called with: \<open>A\<close> has \<open>n * n\<close> cells, and
  \<open>b\<close>, \<open>x\<close>, \<open>r\<close>, \<open>p\<close>, \<open>Ap\<close> have \<open>n\<close> cells.
\<close>

definition mem_ok :: "nat \<Rightarrow> memory \<Rightarrow> bool" where
  "mem_ok n m \<longleftrightarrow>
     length (buf_A m) = n * n \<and> length (buf_b m) = n \<and> length (buf_x m) = n
     \<and> length (buf_r m) = n \<and> length (buf_p m) = n \<and> length (buf_Ap m) = n"

text \<open>
  \<open>gemvP\<close> is called with \<open>beta = 0.0\<close> and still reads the old \<open>Ap\<close>: the product
  \<open>0.0 * Ap[r]\<close> is zero only for a finite \<open>Ap[r]\<close>. \<open>ap_ok\<close> says that a cell of
  \<open>Ap\<close> is non-finite only where the cell of \<open>p\<close> is, in which case \<open>A p\<close> is
  non-finite in every row as well.
\<close>

definition ap_ok :: "nat \<Rightarrow> memory \<Rightarrow> bool" where
  "ap_ok n m \<longleftrightarrow> (\<forall>j<n. buf_Ap m ! j = NonFin \<longrightarrow> buf_p m ! j = NonFin)"

section \<open>Properties\<close>

subsection \<open>The loops of dot and dotP as sums\<close>

lemma dot_loop_sum:
  "sz \<le> length x \<Longrightarrow> sz \<le> length y \<Longrightarrow>
   dot_loop x y sz i result = Inr (result + sum_list (map (\<lambda>j. x ! j * y ! j) [i..<sz]))"
proof (induction x y sz i result rule: dot_loop.induct)
  case (1 x y sz i result)
  show ?case
  proof (cases "i < sz")
    case True
    then have "[i..<sz] = i # [Suc i..<sz]" by (simp add: upt_conv_Cons)
    with True 1 show ?thesis by (subst dot_loop.simps) (simp add: add.assoc)
  next
    case False
    then show ?thesis by (subst dot_loop.simps) simp
  qed
qed

lemma dotP_loop_sum:
  "endi \<le> length x \<Longrightarrow> endi \<le> length y \<Longrightarrow>
   dotP_loop x y endi i local_sum =
     Inr (local_sum + sum_list (map (\<lambda>j. x ! j * y ! j) [i..<endi]))"
proof (induction x y endi i local_sum rule: dotP_loop.induct)
  case (1 x y endi i local_sum)
  show ?case
  proof (cases "i < endi")
    case True
    then have "[i..<endi] = i # [Suc i..<endi]" by (simp add: upt_conv_Cons)
    with True 1 show ?thesis by (subst dotP_loop.simps) (simp add: add.assoc)
  next
    case False
    then show ?thesis by (subst dotP_loop.simps) simp
  qed
qed

lemma all_ranks_Inr:
  "(\<And>k. k \<in> set ks \<Longrightarrow> f k = Inr (g k)) \<Longrightarrow> all_ranks f ks = Inr (map g ks)"
  by (induction ks) simp_all

text \<open>Consecutive blocks of \<open>m\<close> indices, one per rank, make up one range.\<close>

lemma sum_list_blocks:
  fixes h :: "nat \<Rightarrow> dbl"
  shows "sum_list (map (\<lambda>k. sum_list (map h [k * m..<k * m + m])) [0..<n])
         = sum_list (map h [0..<n * m])"
proof (induction n)
  case 0
  then show ?case by simp
next
  case (Suc n)
  have "[0..<n * m + m] = [0..<n * m] @ [n * m..<n * m + m]"
    by (rule upt_add_eq_append) simp
  with Suc show ?case by (simp add: add.commute)
qed

lemma rank_end_le:
  assumes "0 < P" "k < P"
  shows "(if k = P - 1 then sz else k * (sz div P) + sz div P) \<le> (sz::nat)"
proof (cases "k = P - 1")
  case True
  then show ?thesis by simp
next
  case False
  with assms have "Suc k \<le> P" by simp
  then have "Suc k * (sz div P) \<le> P * (sz div P)" by (rule mult_le_mono1)
  also have "\<dots> \<le> sz" by simp
  finally show ?thesis using False by (simp add: add.commute)
qed

lemma dotP_local_sum:
  assumes "0 < size_mpi" "rank < size_mpi" "sz \<le> length x" "sz \<le> length y"
  shows "dotP_local size_mpi rank x y sz =
         Inr (sum_list (map (\<lambda>j. x ! j * y ! j)
                [rank * (sz div size_mpi)..<
                 (if rank = size_mpi - 1 then sz
                  else rank * (sz div size_mpi) + sz div size_mpi)]))"
proof -
  have "(if rank = size_mpi - 1 then sz else rank * (sz div size_mpi) + sz div size_mpi) \<le> sz"
    using assms(1,2) by (rule rank_end_le)
  with assms(3,4) show ?thesis
    unfolding dotP_local_def Let_def by (subst dotP_loop_sum) simp_all
qed

lemma sum_list_segments:
  fixes h :: "nat \<Rightarrow> dbl"
  assumes "0 < P"
  shows "sum_list (map (\<lambda>k. sum_list (map h
            [k * (sz div P)..<(if k = P - 1 then sz else k * (sz div P) + sz div P)])) [0..<P])
         = sum_list (map h [0..<sz])"
proof -
  let ?m = "sz div P"
  let ?seg = "\<lambda>k. sum_list (map h [k * ?m..<(if k = P - 1 then sz else k * ?m + ?m)])"
  from assms have P: "[0..<P] = [0..<P - 1] @ [P - 1]"
    by (cases P) simp_all
  have "map ?seg [0..<P - 1] = map (\<lambda>k. sum_list (map h [k * ?m..<k * ?m + ?m])) [0..<P - 1]"
    by simp
  then have front: "sum_list (map ?seg [0..<P - 1]) = sum_list (map h [0..<(P - 1) * ?m])"
    by (simp only: sum_list_blocks)
  have "(P - 1) * ?m \<le> P * ?m" by (simp add: mult_le_mono1)
  also have "\<dots> \<le> sz" by simp
  finally have le: "(P - 1) * ?m \<le> sz" .
  then have split: "[0..<sz] = [0..<(P - 1) * ?m] @ [(P - 1) * ?m..<sz]"
    by (metis le_add_diff_inverse upt_add_eq_append zero_le)
  have "sum_list (map ?seg [0..<P]) = sum_list (map ?seg [0..<P - 1]) + ?seg (P - 1)"
    by (subst P) simp
  also have "\<dots> = sum_list (map h [0..<(P - 1) * ?m]) + sum_list (map h [(P - 1) * ?m..<sz])"
    by (simp only: front) simp
  also have "\<dots> = sum_list (map h ([0..<(P - 1) * ?m] @ [(P - 1) * ?m..<sz]))"
    by simp
  also have "\<dots> = sum_list (map h [0..<sz])"
    by (simp only: split [symmetric])
  finally show ?thesis .
qed

lemma dotP_sum:
  assumes "0 < size_mpi" "sz \<le> length x" "sz \<le> length y"
  shows "dotP size_mpi x y sz = Inr (inner x y sz)"
proof -
  let ?h = "\<lambda>j. x ! j * y ! j"
  let ?seg = "\<lambda>rank. sum_list (map ?h
                [rank * (sz div size_mpi)..<
                 (if rank = size_mpi - 1 then sz
                  else rank * (sz div size_mpi) + sz div size_mpi)])"
  have "all_ranks (\<lambda>rank. dotP_local size_mpi rank x y sz) [0..<size_mpi]
        = Inr (map ?seg [0..<size_mpi])"
    using assms by (intro all_ranks_Inr dotP_local_sum) simp_all
  then have "dotP size_mpi x y sz = Inr (sum_list (map ?seg [0..<size_mpi]))"
    by (simp add: dotP_def MPI_Allreduce_SUM_def)
  also have "\<dots> = Inr (sum_list (map ?h [0..<sz]))"
    using assms(1) by (simp only: sum_list_segments)
  finally show ?thesis by (simp add: inner_def)
qed

subsection \<open>C4: the distributed dot equals the serial dot\<close>

text \<open>
  Claim C4. For every number of participants \<open>size_mpi \<ge> 1\<close>, every \<open>sz \<ge> 0\<close> and
  every two vectors \<open>x\<close>, \<open>y\<close> of length \<open>sz\<close> held by all participants, \<open>dotP\<close>
  (each rank sums its segment, the last rank takes the remainder, and the sums are
  added across the ranks) returns the same scalar as the serial \<open>dot\<close> over the whole
  range \<open>0 ..< sz\<close>.
\<close>

theorem dotP_eq_dot:
  assumes "0 < size_mpi" "length x = sz" "length y = sz"
  shows "dotP size_mpi x y sz = dot x y sz"
proof -
  have "dotP size_mpi x y sz = Inr (inner x y sz)"
    using assms by (simp add: dotP_sum)
  also have "\<dots> = dot x y sz"
    using assms by (simp add: dot_def dot_loop_sum inner_def)
  finally show ?thesis .
qed

theorem dotP_eq_dot_witness:
  "0 < (2::nat) \<and> length [Fin 1, Fin 2, Fin 5] = 3 \<and> length [Fin 3, Fin 4, Fin 1] = 3
   \<and> dotP 2 [Fin 1, Fin 2, Fin 5] [Fin 3, Fin 4, Fin 1] 3 = Inr (Fin 16)
   \<and> dot [Fin 1, Fin 2, Fin 5] [Fin 3, Fin 4, Fin 1] 3 = Inr (Fin 16)"
proof -
  have d: "dot [Fin 1, Fin 2, Fin 5] [Fin 3, Fin 4, Fin 1] 3 = Inr (Fin 16)"
    by (simp add: dot_def dot_loop.simps zero_dbl_def)
  have "dotP 2 [Fin 1, Fin 2, Fin 5] [Fin 3, Fin 4, Fin 1] 3
        = dot [Fin 1, Fin 2, Fin 5] [Fin 3, Fin 4, Fin 1] 3"
    by (rule dotP_eq_dot) simp_all
  with d show ?thesis by simp
qed

subsection \<open>The loops of gemvP\<close>

lemma gemvP_cols_sum:
  "r * num_cols + num_cols \<le> length A \<Longrightarrow> num_cols \<le> length x \<Longrightarrow>
   gemvP_cols A x r num_cols c y_val =
     Inr (y_val + sum_list (map (\<lambda>j. A ! (r * num_cols + j) * x ! j) [c..<num_cols]))"
proof (induction A x r num_cols c y_val rule: gemvP_cols.induct)
  case (1 A x r num_cols c y_val)
  show ?case
  proof (cases "c < num_cols")
    case True
    then have "[c..<num_cols] = c # [Suc c..<num_cols]" by (simp add: upt_conv_Cons)
    with True 1 show ?thesis by (subst gemvP_cols.simps) (simp add: add.assoc)
  next
    case False
    then show ?thesis by (subst gemvP_cols.simps) simp
  qed
qed


lemma gemvP_rows_result:
  assumes "start_row \<le> r" "r \<le> end_row" "end_row - start_row \<le> length local_y"
    and "end_row * num_cols \<le> length A" "num_cols \<le> length x" "end_row \<le> length y"
  shows "gemvP_rows alpha A x beta y num_cols start_row end_row r local_y =
         Inr (take (r - start_row) local_y
              @ map (gemv_row alpha A x beta y num_cols) [r..<end_row]
              @ drop (end_row - start_row) local_y)"
  using assms
proof (induction alpha A x beta y num_cols start_row end_row r local_y rule: gemvP_rows.induct)
  case (1 alpha A x beta y num_cols start_row end_row r local_y)
  show ?case
  proof (cases "r < end_row")
    case False
    with "1.prems" have "r = end_row" by simp
    then show ?thesis by (subst gemvP_rows.simps) simp
  next
    case True
    let ?v = "beta * y ! r
              + alpha * sum_list (map (\<lambda>j. A ! (r * num_cols + j) * x ! j) [0..<num_cols])"
    have v: "gemv_row alpha A x beta y num_cols r = ?v" by (simp add: gemv_row_def)
    let ?ly = "local_y[r - start_row := ?v]"
    have "Suc r * num_cols \<le> end_row * num_cols"
      using True by (intro mult_le_mono1) simp
    with "1.prems" have rowA: "r * num_cols + num_cols \<le> length A"
      by (simp add: add.commute)
    have cols: "gemvP_cols A x r num_cols 0 0
                = Inr (sum_list (map (\<lambda>j. A ! (r * num_cols + j) * x ! j) [0..<num_cols]))"
      using rowA "1.prems" by (simp add: gemvP_cols_sum)
    have idx: "r - start_row < length local_y" "r < length y"
      using True "1.prems" by simp_all
    have IH: "gemvP_rows alpha A x beta y num_cols start_row end_row (Suc r) ?ly =
         Inr (take (Suc r - start_row) ?ly
              @ map (gemv_row alpha A x beta y num_cols) [Suc r..<end_row]
              @ drop (end_row - start_row) ?ly)"
      using True "1.prems" idx
      by (intro "1.IH" [OF True cols]) simp_all
    have t: "take (Suc r - start_row) ?ly = take (r - start_row) local_y @ [?v]"
    proof -
      have "Suc r - start_row = Suc (r - start_row)" using "1.prems" by simp
      then show ?thesis using idx by (simp add: take_Suc_conv_app_nth)
    qed
    have d: "drop (end_row - start_row) ?ly = drop (end_row - start_row) local_y"
      using True "1.prems" by (intro drop_update_cancel) simp
    have u: "[r..<end_row] = r # [Suc r..<end_row]"
      using True by (simp add: upt_conv_Cons)
    have "gemvP_rows alpha A x beta y num_cols start_row end_row r local_y
          = gemvP_rows alpha A x beta y num_cols start_row end_row (Suc r) ?ly"
      using True idx by (subst gemvP_rows.simps) (simp add: cols)
    then show ?thesis by (simp add: IH t d u v)
  qed
qed





lemma gemvP_local_result:
  assumes "0 < size_mpi" "rank < size_mpi" "size_mpi dvd num_rows"
    and "num_rows * num_cols \<le> length A" "num_cols \<le> length x" "num_rows \<le> length y"
  shows "gemvP_local junk size_mpi rank alpha A x beta y num_rows num_cols =
         Inr (map (gemv_row alpha A x beta y num_cols)
                [rank * (num_rows div size_mpi)..<rank * (num_rows div size_mpi)
                   + num_rows div size_mpi])"
proof -
  let ?m = "num_rows div size_mpi"
  let ?s = "rank * ?m"
  let ?e = "if rank = size_mpi - 1 then num_rows else (rank + 1) * ?m"
  from assms(3) have full: "size_mpi * ?m = num_rows" by simp
  have e: "?e = ?s + ?m"
  proof (cases "rank = size_mpi - 1")
    case True
    then have a: "?e = num_rows" by simp
    have "?s + ?m = size_mpi * ?m"
      using True assms(1) by (cases size_mpi) simp_all
    then have b: "?s + ?m = num_rows" unfolding full .
    show ?thesis by (simp only: a b)
  next
    case False
    then show ?thesis by simp
  qed
  have "Suc rank * ?m \<le> size_mpi * ?m"
    using assms(2) by (intro mult_le_mono1) simp
  with full have le: "?s + ?m \<le> num_rows" by (simp add: add.commute)
  then have "(?s + ?m) * num_cols \<le> num_rows * num_cols" by (rule mult_le_mono1)
  with assms(4) have A: "(?s + ?m) * num_cols \<le> length A" by (rule le_trans [rotated])
  have "gemvP_rows alpha A x beta y num_cols ?s (?s + ?m) ?s (new_double junk ?m) =
        Inr (take (?s - ?s) (new_double junk ?m)
             @ map (gemv_row alpha A x beta y num_cols) [?s..<?s + ?m]
             @ drop (?s + ?m - ?s) (new_double junk ?m))"
    using A le assms(5,6) by (intro gemvP_rows_result) (simp_all add: new_double_def)
  then show ?thesis
    unfolding gemvP_local_def Let_def e by (simp add: new_double_def)
qed



lemma concat_blocks:
  "concat (map (\<lambda>k. map g [k * m..<k * m + m]) [0..<n]) = map g [0..<n * m]"
proof (induction n)
  case 0
  then show ?case by simp
next
  case (Suc n)
  have "[0..<n * m + m] = [0..<n * m] @ [n * m..<n * m + m]"
    by (rule upt_add_eq_append) simp
  with Suc show ?case by (simp add: add.commute)
qed

lemma gemvP_result:
  assumes "0 < size_mpi" "size_mpi dvd num_rows"
    and "num_rows * num_cols \<le> length A" "num_cols \<le> length x" "num_rows \<le> length y"
  shows "gemvP junk size_mpi alpha A x beta y num_rows num_cols =
         Inr (map (gemv_row alpha A x beta y num_cols) [0..<num_rows] @ drop num_rows y)"
proof -
  let ?m = "num_rows div size_mpi"
  let ?g = "gemv_row alpha A x beta y num_cols"
  let ?band = "\<lambda>rank. map ?g [rank * ?m..<rank * ?m + ?m]"
  from assms(2) have full: "size_mpi * ?m = num_rows" by simp
  have locals: "all_ranks (\<lambda>rank. gemvP_local junk size_mpi rank alpha A x beta y num_rows num_cols)
          [0..<size_mpi] = Inr (map ?band [0..<size_mpi])"
    using assms by (intro all_ranks_Inr gemvP_local_result) simp_all
  have take_band: "map (take ?m) (map ?band [0..<size_mpi]) = map ?band [0..<size_mpi]"
    by simp
  have "MPI_Allgather (map ?band [0..<size_mpi]) ?m y =
        Inr (concat (map ?band [0..<size_mpi]) @ drop (size_mpi * ?m) y)"
    unfolding MPI_Allgather_def take_band using assms(5) full
    by (simp add: list_all_iff)
  also have "concat (map ?band [0..<size_mpi]) = map ?g [0..<size_mpi * ?m]"
    by (rule concat_blocks)
  finally show ?thesis
    unfolding gemvP_def locals full by simp
qed



subsection \<open>C3: gemvP computes alpha * A * x + beta * y on every participant\<close>

text \<open>
  Claim C3. For every \<open>size_mpi \<ge> 1\<close> participants, every \<open>N\<close> that is an exact
  multiple of \<open>size_mpi\<close>, and every \<open>alpha\<close>, \<open>beta\<close>, \<open>A\<close> (\<open>N * N\<close> cells),
  \<open>x\<close> and \<open>y\<close> (\<open>N\<close> cells each): after every participant has called
  \<open>gemvP(alpha, A, x, beta, y, N, N)\<close>, the \<open>y\<close> of every participant holds
  \<open>beta * y_old[r] + alpha * (\<Sum>c. A[r, c] * x[c])\<close> in every cell \<open>r\<close>; each rank
  computes these values for its row band \<open>rank * (N / P) ..< (rank + 1) * (N / P)\<close>, and
  the all-gather puts the bands together. The result does not depend on what the fresh
  buffer \<open>local_y\<close> held.
\<close>

theorem gemvP_computes_gemv:
  assumes "0 < size_mpi" "size_mpi dvd N"
    and "length A = N * N" "length x = N" "length y = N"
  shows "gemvP junk size_mpi alpha A x beta y N N
           = Inr (map (gemv_row alpha A x beta y N) [0..<N])
         \<and> (\<forall>rank<size_mpi.
              gemvP_local junk size_mpi rank alpha A x beta y N N
                = Inr (map (gemv_row alpha A x beta y N)
                        [rank * (N div size_mpi)..<(rank + 1) * (N div size_mpi)]))"
proof (intro conjI allI impI)
  show "gemvP junk size_mpi alpha A x beta y N N = Inr (map (gemv_row alpha A x beta y N) [0..<N])"
    using assms by (simp add: gemvP_result)
next
  fix rank
  assume "rank < size_mpi"
  then show "gemvP_local junk size_mpi rank alpha A x beta y N N
          = Inr (map (gemv_row alpha A x beta y N)
                  [rank * (N div size_mpi)..<(rank + 1) * (N div size_mpi)])"
    using assms by (simp add: gemvP_local_result add.commute)
qed

theorem gemvP_computes_gemv_witness:
  "0 < (2::nat) \<and> (2::nat) dvd 2
   \<and> length [Fin 1, Fin 2, Fin 3, Fin 4] = 2 * 2 \<and> length [Fin 1, Fin 1] = 2
   \<and> length [Fin 9, Fin 9] = 2
   \<and> gemvP fresh_nan 2 (Fin 2) [Fin 1, Fin 2, Fin 3, Fin 4] [Fin 1, Fin 1] (Fin 3)
        [Fin 9, Fin 9] 2 2 = Inr [Fin 33, Fin 41]
   \<and> gemvP_local fresh_nan 2 1 (Fin 2) [Fin 1, Fin 2, Fin 3, Fin 4] [Fin 1, Fin 1] (Fin 3)
        [Fin 9, Fin 9] 2 2 = Inr [Fin 41]"
  using gemvP_computes_gemv [of 2 2 "[Fin 1, Fin 2, Fin 3, Fin 4]" "[Fin 1, Fin 1]"
      "[Fin 9, Fin 9]" fresh_nan "Fin 2" "Fin 3"]
  by (simp add: gemv_row_def zero_dbl_def upt_rec)

subsection \<open>C9: the memory accesses of gemvP are in bounds\<close>



subsection \<open>Arithmetic of doubles\<close>

lemma dbl_one_mult [simp]: "1 * (d::dbl) = d"
  by (cases d) (simp_all add: one_dbl_def)

lemma dbl_zero_mult_Fin [simp]: "0 * Fin v = 0"
  by (simp add: zero_dbl_def)

lemma dbl_add_zero_right [simp]: "(d::dbl) + 0 = d"
  by (cases d) (simp_all add: zero_dbl_def)

lemma dbl_NonFin_absorbs [simp]:
  "NonFin + d = NonFin" "d + NonFin = NonFin" "NonFin * d = NonFin" "d * NonFin = NonFin"
  "NonFin - d = NonFin" "d - NonFin = NonFin" "NonFin / d = NonFin" "d / NonFin = NonFin"
  by (cases d; simp)+

lemma dbl_axpy: "alpha * u + 1 * v = v + alpha * (u::dbl)"
  by (simp add: add.commute)

lemma dbl_axmy: "(- alpha) * u + 1 * v = v - alpha * (u::dbl)"
  by (cases alpha; cases u; cases v) simp_all

lemma sum_list_NonFin: "NonFin \<in> set ds \<Longrightarrow> sum_list ds = NonFin"
  by (induction ds) auto

lemma sum_list_Fin: "sum_list (map (\<lambda>i. Fin (f i)) is) = Fin (sum_list (map f is))"
  by (induction "is") (simp_all add: zero_dbl_def)

lemma dsqrt_not_negative: "\<not> dlt (dsqrt d) 0"
  by (cases d) (simp_all add: zero_dbl_def)

subsection \<open>The loops of axpbyP and of the initialisation\<close>

lemma axpbyP_loop_result:
  "i \<le> sz \<Longrightarrow> sz \<le> length x \<Longrightarrow> sz \<le> length y \<Longrightarrow>
   axpbyP_loop alpha x beta y sz i =
     Inr (take i y @ map (\<lambda>j. alpha * x ! j + beta * y ! j) [i..<sz] @ drop sz y)"
proof (induction alpha x beta y sz i rule: axpbyP_loop.induct)
  case (1 alpha x beta y sz i)
  show ?case
  proof (cases "i < sz")
    case False
    with "1.prems" have "i = sz" by simp
    then show ?thesis by (subst axpbyP_loop.simps) simp
  next
    case True
    let ?v = "alpha * x ! i + beta * y ! i"
    let ?y = "y[i := ?v]"
    have idx: "i < length x" "i < length y" using True "1.prems" by simp_all
    have IH: "axpbyP_loop alpha x beta ?y sz (Suc i) =
        Inr (take (Suc i) ?y @ map (\<lambda>j. alpha * x ! j + beta * ?y ! j) [Suc i..<sz] @ drop sz ?y)"
      using True "1.prems" idx by (intro "1.IH") simp_all
    have t: "take (Suc i) ?y = take i y @ [?v]"
      using idx by (simp add: take_Suc_conv_app_nth)
    have m: "map (\<lambda>j. alpha * x ! j + beta * ?y ! j) [Suc i..<sz]
             = map (\<lambda>j. alpha * x ! j + beta * y ! j) [Suc i..<sz]"
      by (rule map_cong) simp_all
    have d: "drop sz ?y = drop sz y"
      using True by (intro drop_update_cancel)
    have u: "[i..<sz] = i # [Suc i..<sz]"
      using True by (simp add: upt_conv_Cons)
    have "axpbyP_loop alpha x beta y sz i = axpbyP_loop alpha x beta ?y sz (Suc i)"
      using True idx by (subst axpbyP_loop.simps) simp
    then show ?thesis by (simp add: IH t m d u)
  qed
qed

lemma axpbyP_result:
  "length x = sz \<Longrightarrow> length y = sz \<Longrightarrow>
   axpbyP alpha x beta y sz = Inr (map (\<lambda>j. alpha * x ! j + beta * y ! j) [0..<sz])"
  by (simp add: axpbyP_def axpbyP_loop_result)

lemma init_loop_result:
  "i \<le> sz \<Longrightarrow> sz \<le> length (buf_x m) \<Longrightarrow> sz \<le> length (buf_r m) \<Longrightarrow>
   sz \<le> length (buf_p m) \<Longrightarrow> sz \<le> length (buf_b m) \<Longrightarrow>
   init_loop m sz i =
     Inr (m\<lparr>buf_x := take i (buf_x m) @ replicate (sz - i) 0 @ drop sz (buf_x m),
            buf_r := take i (buf_r m) @ map (\<lambda>j. buf_b m ! j) [i..<sz] @ drop sz (buf_r m),
            buf_p := take i (buf_p m) @ map (\<lambda>j. buf_b m ! j) [i..<sz] @ drop sz (buf_p m)\<rparr>)"
proof (induction m sz i rule: init_loop.induct)
  case (1 m sz i)
  show ?case
  proof (cases "i < sz")
    case False
    with "1.prems" have "i = sz" by simp
    then show ?thesis by (subst init_loop.simps) simp
  next
    case True
    let ?m = "m\<lparr>buf_x := (buf_x m)[i := 0],
                 buf_r := (buf_r m)[i := buf_b m ! i],
                 buf_p := (buf_p m)[i := buf_b m ! i]\<rparr>"
    have idx: "i < length (buf_x m)" "i < length (buf_r m)" "i < length (buf_p m)"
      "i < length (buf_b m)"
      using True "1.prems" by simp_all
    have IH: "init_loop ?m sz (Suc i) =
     Inr (?m\<lparr>buf_x := take (Suc i) (buf_x ?m) @ replicate (sz - Suc i) 0 @ drop sz (buf_x ?m),
            buf_r := take (Suc i) (buf_r ?m) @ map (\<lambda>j. buf_b ?m ! j) [Suc i..<sz]
                     @ drop sz (buf_r ?m),
            buf_p := take (Suc i) (buf_p ?m) @ map (\<lambda>j. buf_b ?m ! j) [Suc i..<sz]
                     @ drop sz (buf_p ?m)\<rparr>)"
      using True "1.prems" idx by (intro "1.IH") simp_all
    have u: "[i..<sz] = i # [Suc i..<sz]"
      using True by (simp add: upt_conv_Cons)
    have r: "replicate (sz - i) (0::dbl) = 0 # replicate (sz - Suc i) 0"
      using True by (simp add: Suc_diff_Suc replicate_Suc [symmetric] del: replicate_Suc)
    have "init_loop m sz i = init_loop ?m sz (Suc i)"
      using True idx by (subst init_loop.simps) simp
    then show ?thesis
      using True idx by (simp add: IH u r take_Suc_conv_app_nth)
  qed
qed

lemma init_loop_start:
  assumes "length b = sz" "length x = sz"
  shows "init_loop \<lparr>buf_A = A, buf_b = b, buf_x = x, buf_r = new_double junk sz,
                   buf_p = new_double junk sz, buf_Ap = new_double junk sz\<rparr> sz 0
         = Inr (cg_start junk A b sz)"
proof -
  have "map ((!) b) [0..<sz] = b"
    unfolding assms(1) [symmetric] by (rule map_nth)
  with assms show ?thesis
    by (simp add: init_loop_result cg_start_def new_double_def)
qed

subsection \<open>The loop body\<close>

lemma gemv_row_beta_zero:
  assumes "r < n" "buf_Ap m ! r = NonFin \<longrightarrow> buf_p m ! r = NonFin"
  shows "gemv_row 1 (buf_A m) (buf_p m) 0 (buf_Ap m) n r
         = sum_list (map (\<lambda>c. buf_A m ! (r * n + c) * buf_p m ! c) [0..<n])"
proof (cases "buf_Ap m ! r")
  case (Fin v)
  then show ?thesis by (simp add: gemv_row_def)
next
  case NonFin
  with assms have "buf_p m ! r = NonFin" by simp
  then have "NonFin \<in> set (map (\<lambda>c. buf_A m ! (r * n + c) * buf_p m ! c) [0..<n])"
    using assms(1) by (auto simp: image_iff intro!: bexI [of _ r])
  then have "sum_list (map (\<lambda>c. buf_A m ! (r * n + c) * buf_p m ! c) [0..<n]) = NonFin"
    by (rule sum_list_NonFin)
  with NonFin show ?thesis by (simp add: gemv_row_def)
qed

lemma gemvP_mat_vec:
  assumes "0 < size_mpi" "size_mpi dvd n" "mem_ok n m" "ap_ok n m"
  shows "gemvP junk size_mpi 1 (buf_A m) (buf_p m) 0 (buf_Ap m) n n
         = Inr (mat_vec (buf_A m) (buf_p m) n)"
proof -
  have "map (gemv_row 1 (buf_A m) (buf_p m) 0 (buf_Ap m) n) [0..<n] = mat_vec (buf_A m) (buf_p m) n"
    unfolding mat_vec_def using assms(4)
    by (intro map_cong refl gemv_row_beta_zero) (simp_all add: ap_ok_def)
  with assms(1-3) show ?thesis
    by (simp add: gemvP_result mem_ok_def)
qed

lemma cg_body_refines:
  assumes "0 < size_mpi" "size_mpi dvd n" "mem_ok n m" "ap_ok n m"
  shows "cg_body junk size_mpi n rel_error bb m rr = Inr (spec_iteration n rel_error bb m rr)"
proof -
  let ?Ap = "mat_vec (buf_A m) (buf_p m) n"
  let ?alpha = "rr / inner (buf_p m) ?Ap n"
  let ?x = "map (\<lambda>i. buf_x m ! i + ?alpha * buf_p m ! i) [0..<n]"
  let ?r = "map (\<lambda>i. buf_r m ! i - ?alpha * ?Ap ! i) [0..<n]"
  let ?beta = "inner ?r ?r n / rr"
  from assms(3) have len: "length (buf_p m) = n" "length (buf_x m) = n" "length (buf_r m) = n"
    "length ?Ap = n"
    by (simp_all add: mem_ok_def mat_vec_def)
  have s1: "gemvP junk size_mpi 1 (buf_A m) (buf_p m) 0 (buf_Ap m) n n = Inr ?Ap"
    using assms by (rule gemvP_mat_vec)
  have s2: "dotP size_mpi (buf_p m) ?Ap n = Inr (inner (buf_p m) ?Ap n)"
    using assms(1) len by (simp add: dotP_sum)
  have s3: "axpbyP ?alpha (buf_p m) 1 (buf_x m) n = Inr ?x"
    using len by (simp add: axpbyP_result add.commute)
  have s4: "axpbyP (- ?alpha) ?Ap 1 (buf_r m) n = Inr ?r"
    using len by (simp only: axpbyP_result dbl_axmy)
  have s5: "dotP size_mpi ?r ?r n = Inr (inner ?r ?r n)"
    using assms(1) by (simp add: dotP_sum)
  have s7: "axpbyP 1 ?r ?beta (buf_p m) n
            = Inr (map (\<lambda>i. ?r ! i + ?beta * buf_p m ! i) [0..<n])"
    using len by (simp add: axpbyP_result)
  show ?thesis
    by (simp add: cg_body_def spec_iteration_def Let_def s1 s2 s3 s4 s5 s7)
qed

lemma sum_list_squares:
  assumes "\<And>d. d \<in> set ds \<Longrightarrow> d = NonFin \<or> (\<exists>v. d = Fin v \<and> 0 \<le> v)"
  shows "sum_list ds = NonFin \<or> (\<exists>v. sum_list ds = Fin v \<and> 0 \<le> v)"
  using assms
proof (induction ds)
  case Nil
  then show ?case by (simp add: zero_dbl_def)
next
  case (Cons d ds)
  then have "d = NonFin \<or> (\<exists>v. d = Fin v \<and> 0 \<le> v)"
    and "sum_list ds = NonFin \<or> (\<exists>v. sum_list ds = Fin v \<and> 0 \<le> v)"
    by simp_all
  then show ?case by auto
qed

lemma inner_self_cases: "inner r r n = NonFin \<or> (\<exists>v. inner r r n = Fin v \<and> 0 \<le> v)"
  unfolding inner_def
proof (rule sum_list_squares)
  fix d
  assume "d \<in> set (map (\<lambda>i. r ! i * r ! i) [0..<n])"
  then obtain i where "d = r ! i * r ! i" by auto
  then show "d = NonFin \<or> (\<exists>v. d = Fin v \<and> 0 \<le> v)"
    by (cases "r ! i") simp_all
qed

lemma sum_list_finite: "(\<And>d. d \<in> set ds \<Longrightarrow> d \<noteq> NonFin) \<Longrightarrow> sum_list ds \<noteq> NonFin"
proof (induction ds)
  case Nil
  then show ?case by (simp add: zero_dbl_def)
next
  case (Cons d ds)
  then have "d \<noteq> NonFin" "sum_list ds \<noteq> NonFin" by simp_all
  then show ?case by (cases d; cases "sum_list ds") simp_all
qed

lemma inner_self_finite:
  assumes "\<forall>i<n. r ! i \<noteq> NonFin"
  shows "\<exists>v. inner r r n = Fin v \<and> 0 \<le> v"
proof -
  have "inner r r n \<noteq> NonFin"
    unfolding inner_def
  proof (rule sum_list_finite)
    fix d
    assume "d \<in> set (map (\<lambda>i. r ! i * r ! i) [0..<n])"
    then obtain i where "i < n" "d = r ! i * r ! i" by auto
    with assms show "d \<noteq> NonFin" by (cases "r ! i") simp_all
  qed
  with inner_self_cases [of r n] show ?thesis by simp
qed

lemma dbl_quotient_not_negative:
  assumes "a = NonFin \<or> (\<exists>v. a = Fin v \<and> 0 \<le> v)"
    and "b = NonFin \<or> (\<exists>v. b = Fin v \<and> 0 \<le> v)"
  shows "\<not> dlt a 0 \<and> \<not> dlt (a / b) 0"
  using assms by (auto simp: zero_dbl_def not_less divide_less_0_iff split: if_splits)

lemma cg_body_frame:
  "cg_body junk size_mpi n rel_error bb m rr = Inr (m', rr', brk) \<Longrightarrow>
   buf_A m' = buf_A m \<and> buf_b m' = buf_b m"
  by (auto simp: cg_body_def Let_def split: sum.splits if_splits)

lemma cg_body_explicit:
  assumes "0 < size_mpi" "size_mpi dvd n" "mem_ok n m"
  shows "cg_body junk size_mpi n rel_error bb m rr =
     (let Ap = map (gemv_row 1 (buf_A m) (buf_p m) 0 (buf_Ap m) n) [0..<n];
          alpha = rr / inner (buf_p m) Ap n;
          x = map (\<lambda>i. alpha * buf_p m ! i + 1 * buf_x m ! i) [0..<n];
          r = map (\<lambda>i. (- alpha) * Ap ! i + 1 * buf_r m ! i) [0..<n];
          rr_new = inner r r n;
          p = map (\<lambda>i. 1 * r ! i + rr_new / rr * buf_p m ! i) [0..<n]
      in if dlt (dsqrt (rr_new / bb)) rel_error
         then Inr (m\<lparr>buf_Ap := Ap, buf_x := x, buf_r := r\<rparr>, rr_new, True)
         else Inr (m\<lparr>buf_Ap := Ap, buf_x := x, buf_r := r, buf_p := p\<rparr>, rr_new, False))"
proof -
  let ?Ap = "map (gemv_row 1 (buf_A m) (buf_p m) 0 (buf_Ap m) n) [0..<n]"
  let ?alpha = "rr / inner (buf_p m) ?Ap n"
  let ?x = "map (\<lambda>i. ?alpha * buf_p m ! i + 1 * buf_x m ! i) [0..<n]"
  let ?r = "map (\<lambda>i. (- ?alpha) * ?Ap ! i + 1 * buf_r m ! i) [0..<n]"
  let ?beta = "inner ?r ?r n / rr"
  let ?p = "map (\<lambda>i. 1 * ?r ! i + ?beta * buf_p m ! i) [0..<n]"
  from assms(3) have len: "length (buf_p m) = n" "length (buf_x m) = n" "length (buf_r m) = n"
    "length (buf_Ap m) = n" "length (buf_A m) = n * n"
    by (simp_all add: mem_ok_def)
  have s1: "gemvP junk size_mpi 1 (buf_A m) (buf_p m) 0 (buf_Ap m) n n = Inr ?Ap"
    using assms(1,2) len by (simp add: gemvP_result)
  have s2: "dotP size_mpi (buf_p m) ?Ap n = Inr (inner (buf_p m) ?Ap n)"
    using assms(1) len by (simp add: dotP_sum)
  have s3: "axpbyP ?alpha (buf_p m) 1 (buf_x m) n = Inr ?x"
    using len by (simp only: axpbyP_result)
  have s4: "axpbyP (- ?alpha) ?Ap 1 (buf_r m) n = Inr ?r"
    using len by (simp only: axpbyP_result length_map length_upt diff_zero)
  have s5: "dotP size_mpi ?r ?r n = Inr (inner ?r ?r n)"
    using assms(1) by (simp add: dotP_sum)
  have s7: "axpbyP 1 ?r ?beta (buf_p m) n = Inr ?p"
    using len by (simp only: axpbyP_result length_map length_upt diff_zero)
  show ?thesis
    unfolding cg_body_def Let_def s1 sum.case s2 s3 s4 s5 s7 ..
qed

lemma cg_body_total:
  assumes "0 < size_mpi" "size_mpi dvd n" "mem_ok n m"
  shows "\<exists>m' rr' brk. cg_body junk size_mpi n rel_error bb m rr = Inr (m', rr', brk)
           \<and> mem_ok n m' \<and> rr' = inner (buf_r m') (buf_r m') n
           \<and> (brk \<longleftrightarrow> dlt (dsqrt (rr' / bb)) rel_error)"
  using assms(3)
  by (simp add: cg_body_explicit [OF assms] Let_def mem_ok_def)

lemma cg_iterate_inv:
  assumes "0 < size_mpi" "size_mpi dvd n" "mem_ok n m" "rr = inner (buf_r m) (buf_r m) n"
  shows "\<exists>m' rr' brk. cg_iterate junk size_mpi n rel_error bb m rr k = Inr (m', rr', brk)
           \<and> mem_ok n m' \<and> rr' = inner (buf_r m') (buf_r m') n"
proof (induction k)
  case 0
  with assms show ?case by auto
next
  case (Suc k)
  then obtain m1 rr1 brk1 where
    k: "cg_iterate junk size_mpi n rel_error bb m rr k = Inr (m1, rr1, brk1)"
    and ok: "mem_ok n m1" "rr1 = inner (buf_r m1) (buf_r m1) n" by blast
  show ?case
  proof (cases brk1)
    case True
    with k ok show ?thesis by auto
  next
    case False
    from cg_body_total [OF assms(1,2) ok(1), of junk rel_error bb rr1]
    obtain m2 rr2 brk2 where
      "cg_body junk size_mpi n rel_error bb m1 rr1 = Inr (m2, rr2, brk2)"
      "mem_ok n m2" "rr2 = inner (buf_r m2) (buf_r m2) n" by blast
    with k False show ?thesis by auto
  qed
qed

lemma cg_iterate_mem_ok:
  assumes "0 < size_mpi" "size_mpi dvd n" "mem_ok n m"
    and "cg_iterate junk size_mpi n rel_error bb m rr k = Inr (m', rr', brk)"
  shows "mem_ok n m'"
  using assms(3,4)
proof (induction k arbitrary: m' rr' brk)
  case 0
  then show ?case by simp
next
  case (Suc k)
  show ?case
  proof (cases "cg_iterate junk size_mpi n rel_error bb m rr k")
    case (Inl e)
    with Suc.prems show ?thesis by simp
  next
    case (Inr t)
    obtain m1 rr1 brk1 where t: "t = (m1, rr1, brk1)" by (cases t)
    with Inr Suc have ok: "mem_ok n m1" by blast
    show ?thesis
    proof (cases brk1)
      case True
      with Inr t Suc.prems ok show ?thesis by simp
    next
      case False
      with Inr t Suc.prems
      have b: "cg_body junk size_mpi n rel_error bb m1 rr1 = Inr (m', rr', brk)" by simp
      from cg_body_total [OF assms(1,2) ok, of junk rel_error bb rr1] b
      show ?thesis by auto
    qed
  qed
qed

lemma cg_iterate_flag:
  assumes "0 < size_mpi" "size_mpi dvd n" "mem_ok n m0"
  shows "cg_iterate junk size_mpi n rel_error bb m0 rr0 (Suc k) = Inr (m, rr, brk) \<Longrightarrow>
         brk \<longleftrightarrow> dlt (dsqrt (rr / bb)) rel_error"
proof (induction k arbitrary: m rr brk)
  case 0
  from cg_body_total [OF assms, of junk rel_error bb rr0] 0 show ?case by auto
next
  case (Suc k)
  show ?case
  proof (cases "cg_iterate junk size_mpi n rel_error bb m0 rr0 (Suc k)")
    case (Inl e)
    have "cg_iterate junk size_mpi n rel_error bb m0 rr0 (Suc (Suc k)) = Inl e"
      by (subst cg_iterate.simps) (simp only: Inl sum.case)
    with Suc.prems show ?thesis by simp
  next
    case (Inr t)
    obtain m1 rr1 brk1 where t: "t = (m1, rr1, brk1)" by (cases t)
    have prev: "cg_iterate junk size_mpi n rel_error bb m0 rr0 (Suc k) = Inr (m1, rr1, brk1)"
      unfolding Inr t ..
    show ?thesis
    proof (cases brk1)
      case True
      have "cg_iterate junk size_mpi n rel_error bb m0 rr0 (Suc (Suc k)) = Inr (m1, rr1, brk1)"
        by (subst cg_iterate.simps) (simp only: prev sum.case prod.case True if_True)
      with Suc.prems have "m = m1" "rr = rr1" "brk = brk1" by simp_all
      moreover from prev have "brk1 \<longleftrightarrow> dlt (dsqrt (rr1 / bb)) rel_error"
        by (rule Suc.IH)
      ultimately show ?thesis by simp
    next
      case False
      have "cg_iterate junk size_mpi n rel_error bb m0 rr0 (Suc (Suc k))
            = cg_body junk size_mpi n rel_error bb m1 rr1"
        by (subst cg_iterate.simps) (simp only: prev sum.case prod.case False if_False)
      with Suc.prems
      have body: "cg_body junk size_mpi n rel_error bb m1 rr1 = Inr (m, rr, brk)" by simp
      from prev have "mem_ok n m1" by (rule cg_iterate_mem_ok [OF assms])
      from cg_body_total [OF assms(1,2) this, of junk rel_error bb rr1] body
      show ?thesis by auto
    qed
  qed
qed

subsection \<open>The main loop and the whole solver\<close>

lemma cg_loop_runs:
  assumes P: "0 < size_mpi" "size_mpi dvd n" and m0: "mem_ok n m0"
    and mx: "max_iters < INT_MAX"
  shows "cg_iterate junk size_mpi n rel_error bb m0 rr0 j = Inr (m, rr, False) \<Longrightarrow>
         num_iters = int j + 1 \<Longrightarrow> num_iters \<le> max_iters + 1 \<Longrightarrow>
         \<exists>m' rr' k'. cg_loop junk size_mpi n max_iters rel_error bb num_iters m rr = Inr (m', rr', k')
           \<and> ((num_iters \<le> k' \<and> k' \<le> max_iters
                \<and> (\<exists>m1 rr1. cg_iterate junk size_mpi n rel_error bb m0 rr0 (nat k' - 1)
                       = Inr (m1, rr1, False))
                \<and> cg_iterate junk size_mpi n rel_error bb m0 rr0 (nat k') = Inr (m', rr', True))
              \<or> (k' = max_iters + 1
                  \<and> cg_iterate junk size_mpi n rel_error bb m0 rr0 (nat max_iters)
                      = Inr (m', rr', False)))"
proof (induction "nat (max_iters + 1 - num_iters)" arbitrary: num_iters j m rr)
  case 0
  then have eq: "num_iters = max_iters + 1" by simp
  then have "cg_loop junk size_mpi n max_iters rel_error bb num_iters m rr = Inr (m, rr, num_iters)"
    by (subst cg_loop.simps) simp
  moreover from eq 0 have "nat max_iters = j" by simp
  ultimately show ?case using 0 eq by simp
next
  case (Suc d)
  then have le: "num_iters \<le> max_iters" by simp
  from Suc.prems(1) have ok: "mem_ok n m"
    by (rule cg_iterate_mem_ok [OF P m0])
  from cg_body_total [OF P ok, of junk rel_error bb rr]
  obtain m1 rr1 brk where
    body: "cg_body junk size_mpi n rel_error bb m rr = Inr (m1, rr1, brk)" by blast
  with Suc.prems(1)
  have next_it: "cg_iterate junk size_mpi n rel_error bb m0 rr0 (Suc j) = Inr (m1, rr1, brk)"
    by simp
  have j: "nat num_iters = Suc j" "nat num_iters - 1 = j"
    using Suc.prems(2) by simp_all
  show ?case
  proof (cases brk)
    case True
    with body le
    have "cg_loop junk size_mpi n max_iters rel_error bb num_iters m rr = Inr (m1, rr1, num_iters)"
      by (subst cg_loop.simps) simp
    with True le next_it Suc.prems(1) j show ?thesis by auto
  next
    case False
    from le mx have "num_iters \<noteq> INT_MAX" by simp
    with body le False
    have unf: "cg_loop junk size_mpi n max_iters rel_error bb num_iters m rr
          = cg_loop junk size_mpi n max_iters rel_error bb (num_iters + 1) m1 rr1"
      by (subst cg_loop.simps) simp
    have "d = nat (max_iters + 1 - (num_iters + 1))" using Suc.hyps(2) by simp
    moreover have "cg_iterate junk size_mpi n rel_error bb m0 rr0 (Suc j) = Inr (m1, rr1, False)"
      using next_it False by simp
    moreover have "num_iters + 1 = int (Suc j) + 1" "num_iters + 1 \<le> max_iters + 1"
      using Suc.prems(2) le by simp_all
    ultimately have "\<exists>m' rr' k'.
        cg_loop junk size_mpi n max_iters rel_error bb (num_iters + 1) m1 rr1 = Inr (m', rr', k')
        \<and> ((num_iters + 1 \<le> k' \<and> k' \<le> max_iters
             \<and> (\<exists>m1 rr1. cg_iterate junk size_mpi n rel_error bb m0 rr0 (nat k' - 1)
                    = Inr (m1, rr1, False))
             \<and> cg_iterate junk size_mpi n rel_error bb m0 rr0 (nat k') = Inr (m', rr', True))
           \<or> (k' = max_iters + 1
               \<and> cg_iterate junk size_mpi n rel_error bb m0 rr0 (nat max_iters)
                   = Inr (m', rr', False)))"
      by (rule Suc.hyps(1))
    then
    obtain m' rr' k' where
      "cg_loop junk size_mpi n max_iters rel_error bb (num_iters + 1) m1 rr1 = Inr (m', rr', k')"
      "(num_iters + 1 \<le> k' \<and> k' \<le> max_iters
          \<and> (\<exists>m1 rr1. cg_iterate junk size_mpi n rel_error bb m0 rr0 (nat k' - 1)
                 = Inr (m1, rr1, False))
          \<and> cg_iterate junk size_mpi n rel_error bb m0 rr0 (nat k') = Inr (m', rr', True))
       \<or> (k' = max_iters + 1
           \<and> cg_iterate junk size_mpi n rel_error bb m0 rr0 (nat max_iters) = Inr (m', rr', False))"
      by auto
    with unf show ?thesis by auto
  qed
qed

lemma cg_unfold:
  assumes "0 < size_mpi" "length b = n" "length x = n"
  shows "conjugate_gradients junk size_mpi A b x n max_iters rel_error =
     (case cg_loop junk size_mpi n max_iters rel_error (inner b b n) 1 (cg_start junk A b n)
             (inner b b n) of
        Inl e \<Rightarrow> Inl e
      | Inr (m', rr, num_iters) \<Rightarrow>
          Inr \<lparr>res_A = buf_A m', res_b = buf_b m', res_x = buf_x m',
               res_num_iters = num_iters,
               res_log = (if num_iters \<le> max_iters
                          then Converged num_iters (dsqrt (rr / inner b b n))
                          else DidNotConverge max_iters (dsqrt (rr / inner b b n)))\<rparr>)"
proof -
  have "buf_b (cg_start junk A b n) = b" by (simp add: cg_start_def)
  with assms show ?thesis
    unfolding conjugate_gradients_def Let_def
    by (simp add: init_loop_start dotP_sum)
qed

lemma mem_ok_start: "length A = n * n \<Longrightarrow> length b = n \<Longrightarrow> mem_ok n (cg_start junk A b n)"
  by (simp add: mem_ok_def cg_start_def new_double_def)

text \<open>The equations that run the solver on concrete inputs.\<close>

lemmas cg_eval =
  conjugate_gradients_def new_double_def fresh_zero_def cg_body_def gemvP_def gemvP_local_def
  MPI_Allgather_def dotP_def dotP_local_def MPI_Allreduce_SUM_def axpbyP_def zero_dbl_def
  one_dbl_def Let_def INT_MAX_def identity_def
  init_loop.simps cg_loop.simps gemvP_rows.simps gemvP_cols.simps dotP_loop.simps
  axpbyP_loop.simps

subsection \<open>C5: the solver returns after at most max\_iters iterations\<close>

text \<open>
  Claim C5, for \<open>max_iters\<close> below \<open>INT_MAX\<close>. For every input with
  \<open>0 \<le> max_iters < INT_MAX\<close> (buffers of \<open>n * n\<close>, \<open>n\<close> and \<open>n\<close> cells, and
  \<open>size_mpi \<ge> 1\<close> dividing \<open>n\<close>) the solver returns, after at most \<open>max_iters\<close>
  iterations: either the test \<open>sqrt (rr / bb) < rel_error\<close> held for the first time in
  iteration \<open>k = num_iters\<close> with \<open>1 \<le> k \<le> max_iters\<close>, and rank 0 logs
  \<open>Converged k\<close>; or the loop ran exactly \<open>max_iters\<close> iterations without the test
  holding, \<open>num_iters\<close> is \<open>max_iters + 1\<close>, and rank 0 logs
  \<open>DidNotConverge max_iters\<close>. In both cases \<open>x\<close> holds the \<open>n\<close> cells of the last
  iteration boundary.
\<close>

theorem solve_terminates:
  assumes "0 < size_mpi" "size_mpi dvd n"
    and "length A = n * n" "length b = n" "length x = n"
    and "0 \<le> max_iters" "max_iters < INT_MAX"
  shows "\<exists>res m rr.
     conjugate_gradients junk size_mpi A b x n max_iters rel_error = Inr res
     \<and> res_x res = buf_x m \<and> length (res_x res) = n
     \<and> ((1 \<le> res_num_iters res \<and> res_num_iters res \<le> max_iters
          \<and> (\<exists>m1 rr1. cg_iterate junk size_mpi n rel_error (inner b b n) (cg_start junk A b n)
                 (inner b b n) (nat (res_num_iters res) - 1) = Inr (m1, rr1, False))
          \<and> cg_iterate junk size_mpi n rel_error (inner b b n) (cg_start junk A b n)
               (inner b b n) (nat (res_num_iters res)) = Inr (m, rr, True)
          \<and> dlt (dsqrt (rr / inner b b n)) rel_error
          \<and> res_log res = Converged (res_num_iters res) (dsqrt (rr / inner b b n)))
        \<or> (res_num_iters res = max_iters + 1
            \<and> cg_iterate junk size_mpi n rel_error (inner b b n) (cg_start junk A b n)
                 (inner b b n) (nat max_iters) = Inr (m, rr, False)
            \<and> res_log res = DidNotConverge max_iters (dsqrt (rr / inner b b n))))"
proof -
  let ?bb = "inner b b n"
  let ?m0 = "cg_start junk A b n"
  have m0: "mem_ok n ?m0" using assms(3,4) by (rule mem_ok_start)
  have "cg_iterate junk size_mpi n rel_error ?bb ?m0 ?bb 0 = Inr (?m0, ?bb, False)" by simp
  from cg_loop_runs [OF assms(1,2) m0 assms(7) this, of 1] assms(6)
  obtain m' rr' k' where
    loop: "cg_loop junk size_mpi n max_iters rel_error ?bb 1 ?m0 ?bb = Inr (m', rr', k')"
    and cases: "(1 \<le> k' \<and> k' \<le> max_iters
          \<and> (\<exists>m1 rr1. cg_iterate junk size_mpi n rel_error ?bb ?m0 ?bb (nat k' - 1)
                 = Inr (m1, rr1, False))
          \<and> cg_iterate junk size_mpi n rel_error ?bb ?m0 ?bb (nat k') = Inr (m', rr', True))
       \<or> (k' = max_iters + 1
           \<and> cg_iterate junk size_mpi n rel_error ?bb ?m0 ?bb (nat max_iters) = Inr (m', rr', False))"
    by auto
  from cases have "\<exists>j brk. cg_iterate junk size_mpi n rel_error ?bb ?m0 ?bb j = Inr (m', rr', brk)"
    by blast
  then have "mem_ok n m'" using cg_iterate_mem_ok [OF assms(1,2) m0] by blast
  then have len: "length (buf_x m') = n" by (simp add: mem_ok_def)
  let ?res = "\<lparr>res_A = buf_A m', res_b = buf_b m', res_x = buf_x m', res_num_iters = k',
       res_log = (if k' \<le> max_iters then Converged k' (dsqrt (rr' / ?bb))
                  else DidNotConverge max_iters (dsqrt (rr' / ?bb)))\<rparr>"
  have res: "conjugate_gradients junk size_mpi A b x n max_iters rel_error = Inr ?res"
    using assms(1,4,5) loop by (simp add: cg_unfold)
  have test: "dlt (dsqrt (rr' / ?bb)) rel_error"
    if "1 \<le> k'" "cg_iterate junk size_mpi n rel_error ?bb ?m0 ?bb (nat k') = Inr (m', rr', True)"
  proof -
    from that(1) obtain j where "nat k' = Suc j" by (cases "nat k'") simp_all
    with that(2) cg_iterate_flag [OF assms(1,2) m0, of junk rel_error ?bb ?bb j m' rr' True]
    show ?thesis by simp
  qed
  show ?thesis
  proof (intro exI [of _ ?res] exI [of _ m'] exI [of _ rr'] conjI)
    show "conjugate_gradients junk size_mpi A b x n max_iters rel_error = Inr ?res" by (rule res)
    show "res_x ?res = buf_x m'" by simp
    show "length (res_x ?res) = n" using len by simp
    from cases show "(1 \<le> res_num_iters ?res \<and> res_num_iters ?res \<le> max_iters
          \<and> (\<exists>m1 rr1. cg_iterate junk size_mpi n rel_error ?bb ?m0 ?bb (nat (res_num_iters ?res) - 1)
                 = Inr (m1, rr1, False))
          \<and> cg_iterate junk size_mpi n rel_error ?bb ?m0 ?bb (nat (res_num_iters ?res))
               = Inr (m', rr', True)
          \<and> dlt (dsqrt (rr' / ?bb)) rel_error
          \<and> res_log ?res = Converged (res_num_iters ?res) (dsqrt (rr' / ?bb)))
        \<or> (res_num_iters ?res = max_iters + 1
            \<and> cg_iterate junk size_mpi n rel_error ?bb ?m0 ?bb (nat max_iters) = Inr (m', rr', False)
            \<and> res_log ?res = DidNotConverge max_iters (dsqrt (rr' / ?bb)))"
      using test by auto
  qed
qed

theorem solve_terminates_witness:
  "0 < (1::nat) \<and> (1::nat) dvd 1 \<and> length [Fin 4] = 1 * 1 \<and> length [Fin 8] = 1
   \<and> length [Fin 7] = 1 \<and> (0::int) \<le> 10 \<and> 10 < INT_MAX
   \<and> (\<exists>res. conjugate_gradients fresh_zero 1 [Fin 4] [Fin 8] [Fin 7] 1 10 (Fin (1 / 1000))
              = Inr res
            \<and> length (res_x res) = 1
            \<and> (res_num_iters res \<le> 10 \<or> res_num_iters res = 10 + 1))"
proof -
  have "\<exists>res. conjugate_gradients fresh_zero 1 [Fin 4] [Fin 8] [Fin 7] 1 10 (Fin (1 / 1000))
              = Inr res
            \<and> length (res_x res) = 1
            \<and> (res_num_iters res \<le> 10 \<or> res_num_iters res = 10 + 1)"
    using solve_terminates [of 1 1 "[Fin 4]" "[Fin 8]" "[Fin 7]" 10 fresh_zero "Fin (1 / 1000)"]
    by (simp add: INT_MAX_def) blast
  then show ?thesis by (simp add: INT_MAX_def)
qed

text \<open>
  At \<open>max_iters = INT_MAX\<close> the loop condition \<open>num_iters <= max_iters\<close> holds for
  every \<open>int\<close>. With \<open>rel_error = 0\<close> the test never holds, and the counter overflows.
\<close>

lemma cg_loop_overflow:
  assumes "0 < size_mpi" "size_mpi dvd n"
  shows "mem_ok n m \<Longrightarrow> num_iters \<le> INT_MAX \<Longrightarrow>
         cg_loop junk size_mpi n INT_MAX 0 bb num_iters m rr = Inl SignedOverflow"
proof (induction "nat (INT_MAX - num_iters)" arbitrary: num_iters m rr)
  case 0
  then have top: "num_iters = INT_MAX" by simp
  from cg_body_total [OF assms "0.prems"(1), of junk 0 bb rr]
  obtain m1 rr1 where "cg_body junk size_mpi n 0 bb m rr = Inr (m1, rr1, False)"
    by (auto simp: dsqrt_not_negative)
  with top show ?case by (subst cg_loop.simps) simp
next
  case (Suc d)
  then have lt: "num_iters < INT_MAX" by simp
  from cg_body_total [OF assms Suc.prems(1), of junk 0 bb rr]
  obtain m1 rr1 where body: "cg_body junk size_mpi n 0 bb m rr = Inr (m1, rr1, False)"
    and ok: "mem_ok n m1"
    by (auto simp: dsqrt_not_negative)
  from lt body
  have "cg_loop junk size_mpi n INT_MAX 0 bb num_iters m rr
        = cg_loop junk size_mpi n INT_MAX 0 bb (num_iters + 1) m1 rr1"
    by (subst cg_loop.simps) simp
  also have "\<dots> = Inl SignedOverflow"
    using Suc.hyps(2) lt ok by (intro Suc.hyps(1)) simp_all
  finally show ?case .
qed

theorem solve_overflows_at_INT_MAX:
  "conjugate_gradients fresh_zero 1 [Fin 1] [Fin 1] [Fin 0] 1 2147483647 (Fin 0)
   = Inl SignedOverflow"
proof -
  have "mem_ok 1 (cg_start fresh_zero [Fin 1] [Fin 1] 1)"
    by (rule mem_ok_start) simp_all
  then have "cg_loop fresh_zero 1 1 INT_MAX 0 (inner [Fin 1] [Fin 1] 1) 1
               (cg_start fresh_zero [Fin 1] [Fin 1] 1) (inner [Fin 1] [Fin 1] 1)
             = Inl SignedOverflow"
    by (intro cg_loop_overflow) (simp_all add: INT_MAX_def)
  then show ?thesis
    by (simp add: cg_unfold INT_MAX_def zero_dbl_def)
qed

subsection \<open>C7: rr is the inner product of the residual with itself\<close>

text \<open>
  Claim C7, with the breakdown. For \<open>size_mpi \<ge> 1\<close> dividing \<open>n\<close> and buffers of
  \<open>n * n\<close> and \<open>n\<close> cells: every iteration boundary of the solver exists (before the
  first iteration and after each one, \<open>k = 0, 1, 2, ...\<close>), and there the scalar \<open>rr\<close>
  is the inner product of the residual \<open>r\<close> of that boundary with itself: \<open>dot(b, b)\<close>
  before the loop, where \<open>r = b\<close>, and \<open>dot(r, r)\<close> afterwards. So \<open>rr\<close> is never a
  negative number: it is a number \<open>\<ge> 0\<close> whenever every cell of \<open>r\<close> is finite, and it
  is not a number otherwise (after a division by zero). The source takes
  \<open>sqrt (rr / bb)\<close> with no clamp; neither \<open>rr\<close> nor \<open>rr / bb\<close> is ever less than zero.
\<close>

theorem rr_is_residual_inner_product:
  assumes "0 < size_mpi" "size_mpi dvd n" "length A = n * n" "length b = n"
  shows "\<exists>m rr brk.
           cg_iterate junk size_mpi n rel_error (inner b b n) (cg_start junk A b n)
             (inner b b n) k = Inr (m, rr, brk)
           \<and> rr = inner (buf_r m) (buf_r m) n
           \<and> (rr = NonFin \<or> (\<exists>v. rr = Fin v \<and> 0 \<le> v))
           \<and> ((\<forall>i<n. buf_r m ! i \<noteq> NonFin) \<longrightarrow> (\<exists>v. rr = Fin v \<and> 0 \<le> v))
           \<and> \<not> dlt rr 0 \<and> \<not> dlt (rr / inner b b n) 0"
proof -
  have ok: "mem_ok n (cg_start junk A b n)" using assms(3,4) by (rule mem_ok_start)
  have start: "inner b b n = inner (buf_r (cg_start junk A b n)) (buf_r (cg_start junk A b n)) n"
    by (simp add: cg_start_def)
  from cg_iterate_inv [OF assms(1,2) ok start,
      where rel_error = rel_error and bb = "inner b b n" and k = k]
  obtain m rr brk where
    it: "cg_iterate junk size_mpi n rel_error (inner b b n) (cg_start junk A b n)
           (inner b b n) k = Inr (m, rr, brk)"
    and rr: "rr = inner (buf_r m) (buf_r m) n" by blast
  have cases: "rr = NonFin \<or> (\<exists>v. rr = Fin v \<and> 0 \<le> v)"
    unfolding rr by (rule inner_self_cases)
  have fin: "(\<forall>i<n. buf_r m ! i \<noteq> NonFin) \<longrightarrow> (\<exists>v. rr = Fin v \<and> 0 \<le> v)"
    unfolding rr by (intro impI inner_self_finite)
  have "\<not> dlt rr 0 \<and> \<not> dlt (rr / inner b b n) 0"
    using cases inner_self_cases [of b n] by (rule dbl_quotient_not_negative)
  with it rr cases fin show ?thesis by blast
qed

theorem rr_is_residual_inner_product_witness:
  "0 < (1::nat) \<and> (1::nat) dvd 1 \<and> length [Fin 4] = 1 * 1 \<and> length [Fin 8] = 1
   \<and> cg_iterate fresh_zero 1 1 (Fin (1 / 1000)) (inner [Fin 8] [Fin 8] 1)
        (cg_start fresh_zero [Fin 4] [Fin 8] 1) (inner [Fin 8] [Fin 8] 1) 1
       = Inr (\<lparr>buf_A = [Fin 4], buf_b = [Fin 8], buf_x = [Fin 2], buf_r = [Fin 0],
               buf_p = [Fin 8], buf_Ap = [Fin 32]\<rparr>, Fin 0, True)
   \<and> [Fin 0] ! 0 \<noteq> NonFin
   \<and> Fin 0 = inner [Fin 0] [Fin 0] 1 \<and> (0::real) \<le> 0 \<and> \<not> dlt (Fin 0) 0"
proof -
  have it: "cg_iterate fresh_zero 1 1 (Fin (1 / 1000)) (inner [Fin 8] [Fin 8] 1)
        (cg_start fresh_zero [Fin 4] [Fin 8] 1) (inner [Fin 8] [Fin 8] 1) 1
       = Inr (\<lparr>buf_A = [Fin 4], buf_b = [Fin 8], buf_x = [Fin 2], buf_r = [Fin 0],
               buf_p = [Fin 8], buf_Ap = [Fin 32]\<rparr>, Fin 0, True)"
    by (simp add: cg_eval cg_start_def inner_def)
  from rr_is_residual_inner_product [of 1 1 "[Fin 4]" "[Fin 8]" fresh_zero "Fin (1 / 1000)" 1]
  have "\<exists>m rr brk.
           cg_iterate fresh_zero 1 1 (Fin (1 / 1000)) (inner [Fin 8] [Fin 8] 1)
             (cg_start fresh_zero [Fin 4] [Fin 8] 1) (inner [Fin 8] [Fin 8] 1) 1
             = Inr (m, rr, brk)
           \<and> rr = inner (buf_r m) (buf_r m) 1
           \<and> ((\<forall>i<1. buf_r m ! i \<noteq> NonFin) \<longrightarrow> (\<exists>v. rr = Fin v \<and> 0 \<le> v))
           \<and> \<not> dlt rr 0"
    by simp blast
  with it show ?thesis by (auto simp: zero_dbl_def)
qed

text \<open>
  With \<open>b = 0\<close> the first iteration computes \<open>alpha = 0 / 0\<close>: at the boundary after
  it \<open>r\<close> and \<open>rr\<close> are not numbers, and \<open>rr \<ge> 0\<close> does not hold.
\<close>

theorem rr_not_a_number_after_breakdown:
  "cg_iterate fresh_zero 1 1 (Fin (1 / 2)) (inner [Fin 0] [Fin 0] 1)
     (cg_start fresh_zero [Fin 1] [Fin 0] 1) (inner [Fin 0] [Fin 0] 1) 1
   = Inr (\<lparr>buf_A = [Fin 1], buf_b = [Fin 0], buf_x = [NonFin], buf_r = [NonFin],
           buf_p = [NonFin], buf_Ap = [Fin 0]\<rparr>, NonFin, False)"
  by (simp add: cg_eval cg_start_def inner_def)

subsection \<open>C8: the solver does not write A and b\<close>

lemma init_loop_frame:
  "init_loop m sz i = Inr m' \<Longrightarrow> buf_A m' = buf_A m \<and> buf_b m' = buf_b m"
proof (induction m sz i rule: init_loop.induct)
  case (1 m sz i)
  from "1.prems" show ?case
    by (subst (asm) init_loop.simps) (auto split: if_splits dest: "1.IH")
qed

lemma cg_loop_frame:
  "cg_loop junk size_mpi sz max_iters rel_error bb num_iters m rr = Inr (m', rr', k') \<Longrightarrow>
   buf_A m' = buf_A m \<and> buf_b m' = buf_b m"
proof (induction junk size_mpi sz max_iters rel_error bb num_iters m rr rule: cg_loop.induct)
  case (1 junk size_mpi sz max_iters rel_error bb num_iters m rr)
  show ?case
  proof (cases "num_iters \<le> max_iters")
    case False
    with "1.prems" show ?thesis by (subst (asm) cg_loop.simps) simp
  next
    case True
    show ?thesis
    proof (cases "cg_body junk size_mpi sz rel_error bb m rr")
      case (Inl e)
      with True "1.prems" show ?thesis by (subst (asm) cg_loop.simps) simp
    next
      case (Inr t)
      obtain m1 rr1 brk where t: "t = (m1, rr1, brk)" by (cases t)
      from Inr t have fr: "buf_A m1 = buf_A m \<and> buf_b m1 = buf_b m"
        by (auto dest: cg_body_frame)
      show ?thesis
      proof (cases "brk \<or> num_iters = INT_MAX")
        case True
        with \<open>num_iters \<le> max_iters\<close> Inr t "1.prems" fr show ?thesis
          by (subst (asm) cg_loop.simps) (auto split: if_splits)
      next
        case False
        with \<open>num_iters \<le> max_iters\<close> Inr t "1.prems"
        have "cg_loop junk size_mpi sz max_iters rel_error bb (num_iters + 1) m1 rr1
              = Inr (m', rr', k')"
          by (subst (asm) cg_loop.simps) simp
        with False \<open>num_iters \<le> max_iters\<close> Inr t
        have "buf_A m' = buf_A m1 \<and> buf_b m' = buf_b m1"
          by (intro "1.IH" [of t m1 "(rr1, brk)" rr1 brk]) simp_all
        with fr show ?thesis by simp
      qed
    qed
  qed
qed

text \<open>
  Claim C8. The solver never modifies the matrix \<open>A\<close> or the right-hand side \<open>b\<close>:
  whenever \<open>conjugate_gradients(A, b, x, size, max_iters, rel_error)\<close> returns, every
  cell of \<open>A\<close> and of \<open>b\<close> holds the value it had at entry; the solver writes only
  \<open>x\<close> and its own buffers \<open>r\<close>, \<open>p\<close>, \<open>Ap\<close>.
\<close>

theorem solve_leaves_A_and_b:
  assumes "conjugate_gradients junk size_mpi A b x sz max_iters rel_error = Inr res"
  shows "res_A res = A \<and> res_b res = b"
proof -
  let ?m = "\<lparr>buf_A = A, buf_b = b, buf_x = x, buf_r = new_double junk sz,
             buf_p = new_double junk sz, buf_Ap = new_double junk sz\<rparr>"
  from assms obtain m1 bb m' rr k' where
    i: "init_loop ?m sz 0 = Inr m1"
    and l: "cg_loop junk size_mpi sz max_iters rel_error bb 1 m1 bb = Inr (m', rr, k')"
    and r: "res_A res = buf_A m'" "res_b res = buf_b m'"
    by (auto simp: conjugate_gradients_def Let_def split: sum.splits)
  from i have "buf_A m1 = A \<and> buf_b m1 = b" by (auto dest: init_loop_frame)
  moreover from l have "buf_A m' = buf_A m1 \<and> buf_b m' = buf_b m1" by (rule cg_loop_frame)
  ultimately show ?thesis using r by simp
qed

theorem solve_leaves_A_and_b_witness:
  "conjugate_gradients fresh_zero 1 [Fin 4] [Fin 8] [Fin 7] 1 10 (Fin (1 / 1000))
     = Inr \<lparr>res_A = [Fin 4], res_b = [Fin 8], res_x = [Fin 2], res_num_iters = 1,
            res_log = Converged 1 (Fin 0)\<rparr>
   \<and> res_A \<lparr>res_A = [Fin 4], res_b = [Fin 8], res_x = [Fin 2], res_num_iters = 1,
            res_log = Converged 1 (Fin 0)\<rparr> = [Fin 4]
   \<and> res_b \<lparr>res_A = [Fin 4], res_b = [Fin 8], res_x = [Fin 2], res_num_iters = 1,
            res_log = Converged 1 (Fin 0)\<rparr> = [Fin 8]"
proof -
  have run: "conjugate_gradients fresh_zero 1 [Fin 4] [Fin 8] [Fin 7] 1 10 (Fin (1 / 1000))
     = Inr \<lparr>res_A = [Fin 4], res_b = [Fin 8], res_x = [Fin 2], res_num_iters = 1,
            res_log = Converged 1 (Fin 0)\<rparr>"
    by (simp add: cg_eval)
  from solve_leaves_A_and_b [OF run] run show ?thesis by simp
qed

subsection \<open>C10: max\_iters = 0\<close>

text \<open>
  Claim C10. Called with \<open>max_iters = 0\<close> (and \<open>b\<close>, \<open>x\<close> of \<open>n\<close> cells,
  \<open>size_mpi \<ge> 1\<close>), the solver never runs the loop body: the
  loop returns the state it was entered with, and the solver returns with \<open>x\<close> equal to
  the zero vector of \<open>n\<close> cells, reporting that it did not converge in 0 iterations, with
  the relative residual \<open>sqrt (bb / bb)\<close>, which is 1 when \<open>bb\<close> is a number other
  than 0.
\<close>

theorem max_iters_zero:
  assumes "0 < size_mpi" "length b = n" "length x = n"
  shows "conjugate_gradients junk size_mpi A b x n 0 rel_error
           = Inr \<lparr>res_A = A, res_b = b, res_x = replicate n 0, res_num_iters = 1,
                  res_log = DidNotConverge 0 (dsqrt (inner b b n / inner b b n))\<rparr>
         \<and> cg_loop junk size_mpi n 0 rel_error (inner b b n) 1 (cg_start junk A b n) (inner b b n)
             = Inr (cg_start junk A b n, inner b b n, 1)
         \<and> (\<forall>v. inner b b n = Fin v \<longrightarrow> v \<noteq> 0 \<longrightarrow>
               dsqrt (inner b b n / inner b b n) = 1)"
proof (intro conjI allI impI)
  show loop: "cg_loop junk size_mpi n 0 rel_error (inner b b n) 1 (cg_start junk A b n)
          (inner b b n) = Inr (cg_start junk A b n, inner b b n, 1)"
    by (subst cg_loop.simps) simp
  show "conjugate_gradients junk size_mpi A b x n 0 rel_error
           = Inr \<lparr>res_A = A, res_b = b, res_x = replicate n 0, res_num_iters = 1,
                  res_log = DidNotConverge 0 (dsqrt (inner b b n / inner b b n))\<rparr>"
    using assms by (simp add: cg_unfold loop) (simp add: cg_start_def)
next
  fix v
  assume "inner b b n = Fin v" "v \<noteq> 0"
  then show "dsqrt (inner b b n / inner b b n) = 1" by (simp add: one_dbl_def)
qed

theorem max_iters_zero_witness:
  "0 < (1::nat) \<and> length [Fin 3] = 1 \<and> length [Fin 7] = 1
   \<and> conjugate_gradients fresh_nan 1 [Fin 4] [Fin 3] [Fin 7] 1 0 (Fin (1 / 1000))
       = Inr \<lparr>res_A = [Fin 4], res_b = [Fin 3], res_x = [Fin 0], res_num_iters = 1,
              res_log = DidNotConverge 0 (Fin 1)\<rparr>
   \<and> inner [Fin 3] [Fin 3] 1 = Fin 9 \<and> (9::real) \<noteq> 0"
  using max_iters_zero [of 1 "[Fin 3]" 1 "[Fin 7]" fresh_nan "[Fin 4]" "Fin (1 / 1000)"]
  by (simp add: inner_def zero_dbl_def one_dbl_def)

subsection \<open>A zero right-hand side\<close>

text \<open>
  Once \<open>alpha\<close> is not a number, so is everything the body computes from it, and the
  test cannot hold. This happens when \<open>rr\<close> is not a number, and when \<open>rr\<close> and \<open>p\<close>
  are zero: then \<open>alpha = 0 / 0\<close>.
\<close>

lemma sum_list_zero_or_NonFin:
  "(\<And>d. d \<in> set ds \<Longrightarrow> d = 0 \<or> d = NonFin) \<Longrightarrow> sum_list ds = 0 \<or> sum_list ds = (NonFin::dbl)"
proof (induction ds)
  case Nil
  then show ?case by simp
next
  case (Cons d ds)
  then have "d = 0 \<or> d = NonFin" "sum_list ds = 0 \<or> sum_list ds = NonFin" by simp_all
  then show ?case by auto
qed

lemma zero_mult_zero_or_NonFin: "(0::dbl) * d = 0 \<or> 0 * d = NonFin"
  by (cases d) (simp_all add: zero_dbl_def)

lemma inner_zero_left:
  "inner (replicate n 0) v n = 0 \<or> inner (replicate n 0) v n = NonFin"
  unfolding inner_def
  by (rule sum_list_zero_or_NonFin) (use zero_mult_zero_or_NonFin in auto)

lemma inner_zero: "inner (replicate n 0) (replicate n 0) n = 0"
proof -
  have eq: "map (\<lambda>i. replicate n (0::dbl) ! i * replicate n 0 ! i) [0..<n] = map (\<lambda>i. 0) [0..<n]"
    by (rule map_cong) (simp_all add: zero_dbl_def)
  show ?thesis unfolding inner_def eq by simp
qed

lemma inner_NonFin: "0 < n \<Longrightarrow> inner (replicate n NonFin) (replicate n NonFin) n = NonFin"
  unfolding inner_def by (rule sum_list_NonFin) (auto simp: image_iff intro!: bexI [of _ 0])

lemma alpha_breakdown:
  assumes "rr = NonFin \<or> (rr = 0 \<and> p = replicate n 0)"
  shows "rr / inner p v n = NonFin"
  using assms inner_zero_left [of n v] by (auto simp: zero_dbl_def)

lemma cg_body_breakdown:
  assumes "0 < size_mpi" "size_mpi dvd n" "mem_ok n m" "0 < n"
    and "rr = NonFin \<or> (rr = 0 \<and> buf_p m = replicate n 0)"
  shows "\<exists>m'. cg_body junk size_mpi n rel_error bb m rr = Inr (m', NonFin, False)
           \<and> mem_ok n m' \<and> buf_x m' = replicate n NonFin"
proof -
  let ?Ap = "map (gemv_row 1 (buf_A m) (buf_p m) 0 (buf_Ap m) n) [0..<n]"
  have alpha: "rr / inner (buf_p m) ?Ap n = NonFin"
    using assms(5) by (rule alpha_breakdown)
  have nf: "map (\<lambda>i. NonFin) [0..<n] = replicate n NonFin"
    by (simp add: map_replicate_const)
  show ?thesis
    using assms(3,4)
    by (simp add: cg_body_explicit [OF assms(1-3)] Let_def alpha nf inner_NonFin mem_ok_def)
qed

lemma cg_loop_breakdown:
  assumes "0 < size_mpi" "size_mpi dvd n" "0 < n" "max_iters < INT_MAX"
  shows "mem_ok n m \<Longrightarrow> num_iters \<le> max_iters \<Longrightarrow>
         rr = NonFin \<or> (rr = 0 \<and> buf_p m = replicate n 0) \<Longrightarrow>
         \<exists>m'. cg_loop junk size_mpi n max_iters rel_error bb num_iters m rr
                 = Inr (m', NonFin, max_iters + 1)
               \<and> buf_x m' = replicate n NonFin"
proof (induction "nat (max_iters - num_iters)" arbitrary: num_iters m rr)
  case 0
  then have last: "num_iters = max_iters" by simp
  from cg_body_breakdown [OF assms(1,2) "0.prems"(1) assms(3) "0.prems"(3)]
  obtain m1 where body: "cg_body junk size_mpi n rel_error bb m rr = Inr (m1, NonFin, False)"
    and x: "buf_x m1 = replicate n NonFin" by blast
  have "cg_loop junk size_mpi n max_iters rel_error bb (max_iters + 1) m1 NonFin
        = Inr (m1, NonFin, max_iters + 1)"
    by (subst cg_loop.simps) simp
  with body last assms(4)
  have "cg_loop junk size_mpi n max_iters rel_error bb num_iters m rr
        = Inr (m1, NonFin, max_iters + 1)"
    by (subst cg_loop.simps) simp
  with x show ?case by blast
next
  case (Suc d)
  then have lt: "num_iters < max_iters" by simp
  from cg_body_breakdown [OF assms(1,2) Suc.prems(1) assms(3) Suc.prems(3)]
  obtain m1 where body: "cg_body junk size_mpi n rel_error bb m rr = Inr (m1, NonFin, False)"
    and ok: "mem_ok n m1" by blast
  from body lt assms(4)
  have "cg_loop junk size_mpi n max_iters rel_error bb num_iters m rr
        = cg_loop junk size_mpi n max_iters rel_error bb (num_iters + 1) m1 NonFin"
    by (subst cg_loop.simps) simp
  moreover have "\<exists>m'. cg_loop junk size_mpi n max_iters rel_error bb (num_iters + 1) m1 NonFin
                 = Inr (m', NonFin, max_iters + 1)
               \<and> buf_x m' = replicate n NonFin"
    using Suc.hyps(2) lt ok by (intro Suc.hyps(1)) simp_all
  ultimately show ?case by simp
qed

subsection \<open>C1: a zero right-hand side\<close>

text \<open>
  Claim C1, as the source has it. The source has no early exit for \<open>bb = 0\<close>. If \<open>b\<close>
  is the zero vector (\<open>n \<ge> 1\<close> cells), the solver returns \<open>x\<close> equal to the zero vector
  only for \<open>max_iters = 0\<close>, and then reports 0 iterations (\<open>num_iters\<close> is 1). For
  \<open>1 \<le> max_iters < INT_MAX\<close> it runs all \<open>max_iters\<close> iterations: the first one computes
  \<open>alpha = 0 / 0\<close>, the test never holds, every cell of \<open>x\<close> is not a number, and rank 0
  reports that the solver did not converge in \<open>max_iters\<close> iterations. In both cases
  \<open>num_iters\<close> is \<open>max_iters + 1\<close>, never 0.
\<close>

theorem zero_rhs_no_early_exit:
  assumes "0 < size_mpi" "size_mpi dvd n" "0 < n"
    and "length A = n * n" "b = replicate n 0" "length x = n"
    and "0 \<le> max_iters" "max_iters < INT_MAX"
  shows "\<exists>res. conjugate_gradients junk size_mpi A b x n max_iters rel_error = Inr res
           \<and> res_x res = (if max_iters = 0 then replicate n 0 else replicate n NonFin)
           \<and> res_num_iters res = max_iters + 1
           \<and> res_log res = DidNotConverge max_iters NonFin"
proof (cases "max_iters = 0")
  case True
  have "cg_loop junk size_mpi n 0 rel_error 0 1 (cg_start junk A b n) 0
        = Inr (cg_start junk A b n, 0, 1)"
    by (subst cg_loop.simps) simp
  with True assms(1,5,6) show ?thesis
    by (simp add: cg_unfold inner_zero) (simp add: cg_start_def zero_dbl_def)
next
  case False
  with assms(7) have one: "1 \<le> max_iters" by simp
  have ok: "mem_ok n (cg_start junk A b n)"
    using assms(4,5) by (intro mem_ok_start) simp_all
  have "(0::dbl) = NonFin \<or> ((0::dbl) = 0 \<and> buf_p (cg_start junk A b n) = replicate n 0)"
    using assms(5) by (simp add: cg_start_def)
  from cg_loop_breakdown [OF assms(1-3,8) ok one this]
  obtain m' where
    "cg_loop junk size_mpi n max_iters rel_error 0 1 (cg_start junk A b n) 0
       = Inr (m', NonFin, max_iters + 1)"
    "buf_x m' = replicate n NonFin" by blast
  with False assms(1,5,6) show ?thesis
    by (simp add: cg_unfold inner_zero)
qed

theorem zero_rhs_no_early_exit_witness:
  "0 < (1::nat) \<and> (1::nat) dvd 1 \<and> length [Fin 1] = 1 * 1 \<and> [0::dbl] = replicate 1 0
   \<and> length [Fin 7] = 1 \<and> (0::int) \<le> 3 \<and> 3 < INT_MAX
   \<and> (\<exists>res. conjugate_gradients fresh_zero 1 [Fin 1] [0] [Fin 7] 1 3 (Fin (1 / 2)) = Inr res
         \<and> res_x res = [NonFin] \<and> res_num_iters res = 4
         \<and> res_log res = DidNotConverge 3 NonFin)"
  using zero_rhs_no_early_exit [of 1 1 "[Fin 1]" "[0]" "[Fin 7]" 3 fresh_zero "Fin (1 / 2)"]
  by (simp add: INT_MAX_def)

theorem zero_rhs_enters_loop:
  "conjugate_gradients fresh_zero 1 [Fin 1] [Fin 0] [Fin 0] 1 1 (Fin (1 / 2))
   = Inr \<lparr>res_A = [Fin 1], res_b = [Fin 0], res_x = [NonFin], res_num_iters = 2,
          res_log = DidNotConverge 1 NonFin\<rparr>"
  by (simp add: cg_eval)

subsection \<open>The iteration of the specification at the iteration boundaries\<close>

lemma spec_iteration_ap_ok:
  assumes "spec_iteration n rel_tol bb m rr = (m', rr', False)"
  shows "ap_ok n m'"
proof -
  let ?Ap = "mat_vec (buf_A m) (buf_p m) n"
  let ?alpha = "rr / inner (buf_p m) ?Ap n"
  let ?r = "map (\<lambda>i. buf_r m ! i - ?alpha * ?Ap ! i) [0..<n]"
  let ?beta = "inner ?r ?r n / rr"
  from assms have Ap: "buf_Ap m' = ?Ap"
    and p: "buf_p m' = map (\<lambda>i. ?r ! i + ?beta * buf_p m ! i) [0..<n]"
    by (auto simp: spec_iteration_def Let_def split: if_splits)
  show ?thesis
    unfolding ap_ok_def Ap p by simp
qed

lemma ap_ok_start: "\<forall>i<n. junk i \<noteq> NonFin \<Longrightarrow> ap_ok n (cg_start junk A b n)"
  by (simp add: ap_ok_def cg_start_def new_double_def)

lemma cg_iterate_ap_ok:
  assumes "0 < size_mpi" "size_mpi dvd n" "mem_ok n m0" "ap_ok n m0"
  shows "cg_iterate junk size_mpi n rel_error bb m0 rr0 k = Inr (m, rr, False) \<Longrightarrow> ap_ok n m"
proof (induction k arbitrary: m rr)
  case 0
  with assms(4) show ?case by simp
next
  case (Suc k)
  show ?case
  proof (cases "cg_iterate junk size_mpi n rel_error bb m0 rr0 k")
    case (Inl e)
    with Suc.prems show ?thesis by simp
  next
    case (Inr t)
    obtain m1 rr1 brk1 where t: "t = (m1, rr1, brk1)" by (cases t)
    from Inr t Suc.prems have nb: "\<not> brk1" by auto
    with Inr t have k: "cg_iterate junk size_mpi n rel_error bb m0 rr0 k = Inr (m1, rr1, False)"
      by simp
    then have "ap_ok n m1" by (rule Suc.IH)
    moreover from k have "mem_ok n m1" by (rule cg_iterate_mem_ok [OF assms(1-3)])
    ultimately have "cg_body junk size_mpi n rel_error bb m1 rr1
                     = Inr (spec_iteration n rel_error bb m1 rr1)"
      by (intro cg_body_refines assms(1,2))
    with k Suc.prems have "spec_iteration n rel_error bb m1 rr1 = (m, rr, False)" by simp
    then show ?thesis by (rule spec_iteration_ap_ok)
  qed
qed

subsection \<open>C2: what one iteration computes\<close>

text \<open>
  Claim C2, for a fresh \<open>Ap\<close> that holds finite numbers. When the cells of the
  buffer \<open>Ap\<close> hold finite numbers as the loop is entered (the buffer is not
  initialised, and the first \<open>gemvP\<close> reads it and multiplies it by \<open>beta = 0.0\<close>),
  every iteration of the solver computes, in this order, \<open>Ap = A p\<close>,
  \<open>alpha = rr / dot(p, Ap)\<close>, \<open>x = x + alpha p\<close>, \<open>r = r - alpha Ap\<close>,
  \<open>rr_new = dot(r, r)\<close>, \<open>beta = rr_new / rr\<close>, \<open>rr = rr_new\<close>, then tests
  \<open>sqrt (rr / bb) < rel_error\<close>; if the test holds it leaves the loop before updating
  \<open>p\<close>, so that the returned \<open>x\<close> is the one of this iteration, and otherwise it
  updates \<open>p = r + beta p\<close> and goes on. That is: at every iteration boundary \<open>k\<close> at
  which the loop is still running, the loop body of the source returns what
  \<open>spec_iteration\<close> returns, this is the next boundary, and the loop ends there or goes
  on from there as the flag says. Here \<open>size_mpi \<ge> 1\<close> divides \<open>n\<close>, and the buffers
  have \<open>n * n\<close> and \<open>n\<close> cells.
\<close>

theorem iteration_follows_spec:
  assumes "0 < size_mpi" "size_mpi dvd n" "length A = n * n" "length b = n"
    and "\<forall>i<n. junk i \<noteq> NonFin"
    and "cg_iterate junk size_mpi n rel_error bb (cg_start junk A b n) rr0 k = Inr (m, rr, False)"
  shows "cg_body junk size_mpi n rel_error bb m rr = Inr (spec_iteration n rel_error bb m rr)
         \<and> cg_iterate junk size_mpi n rel_error bb (cg_start junk A b n) rr0 (Suc k)
             = Inr (spec_iteration n rel_error bb m rr)
         \<and> (\<forall>num_iters max_iters. num_iters \<le> max_iters \<longrightarrow> num_iters < INT_MAX \<longrightarrow>
               cg_loop junk size_mpi n max_iters rel_error bb num_iters m rr
                 = (case spec_iteration n rel_error bb m rr of
                      (m', rr', brk) \<Rightarrow>
                        if brk then Inr (m', rr', num_iters)
                        else cg_loop junk size_mpi n max_iters rel_error bb (num_iters + 1) m' rr'))"
proof -
  have m0: "mem_ok n (cg_start junk A b n)" using assms(3,4) by (rule mem_ok_start)
  have a0: "ap_ok n (cg_start junk A b n)" using assms(5) by (rule ap_ok_start)
  have "mem_ok n m" using assms(6) by (rule cg_iterate_mem_ok [OF assms(1,2) m0])
  moreover have "ap_ok n m" using assms(6) by (rule cg_iterate_ap_ok [OF assms(1,2) m0 a0])
  ultimately have body: "cg_body junk size_mpi n rel_error bb m rr
      = Inr (spec_iteration n rel_error bb m rr)"
    by (intro cg_body_refines assms(1,2))
  have loop: "cg_loop junk size_mpi n max_iters rel_error bb num_iters m rr
                 = (case spec_iteration n rel_error bb m rr of
                      (m', rr', brk) \<Rightarrow>
                        if brk then Inr (m', rr', num_iters)
                        else cg_loop junk size_mpi n max_iters rel_error bb (num_iters + 1) m' rr')"
    if "num_iters \<le> max_iters" "num_iters < INT_MAX" for num_iters max_iters
    using that by (subst cg_loop.simps) (simp add: body split: prod.splits)
  from body assms(6) loop show ?thesis by simp
qed

theorem iteration_follows_spec_witness:
  "0 < (1::nat) \<and> (1::nat) dvd 1 \<and> length [Fin 4] = 1 * 1 \<and> length [Fin 8] = 1
   \<and> fresh_zero 0 \<noteq> NonFin
   \<and> cg_iterate fresh_zero 1 1 (Fin (1 / 1000)) (Fin 64) (cg_start fresh_zero [Fin 4] [Fin 8] 1)
        (Fin 64) 0 = Inr (cg_start fresh_zero [Fin 4] [Fin 8] 1, Fin 64, False)
   \<and> cg_body fresh_zero 1 1 (Fin (1 / 1000)) (Fin 64) (cg_start fresh_zero [Fin 4] [Fin 8] 1)
        (Fin 64)
       = Inr (spec_iteration 1 (Fin (1 / 1000)) (Fin 64) (cg_start fresh_zero [Fin 4] [Fin 8] 1)
               (Fin 64))
   \<and> spec_iteration 1 (Fin (1 / 1000)) (Fin 64) (cg_start fresh_zero [Fin 4] [Fin 8] 1) (Fin 64)
       = (\<lparr>buf_A = [Fin 4], buf_b = [Fin 8], buf_x = [Fin 2], buf_r = [Fin 0], buf_p = [Fin 8],
           buf_Ap = [Fin 32]\<rparr>, Fin 0, True)"
proof -
  have h: "\<forall>i<1. fresh_zero i \<noteq> NonFin" by (simp add: fresh_zero_def zero_dbl_def)
  have it: "cg_iterate fresh_zero 1 1 (Fin (1 / 1000)) (Fin 64)
              (cg_start fresh_zero [Fin 4] [Fin 8] 1) (Fin 64) 0
            = Inr (cg_start fresh_zero [Fin 4] [Fin 8] 1, Fin 64, False)" by simp
  have sp: "spec_iteration 1 (Fin (1 / 1000)) (Fin 64) (cg_start fresh_zero [Fin 4] [Fin 8] 1)
              (Fin 64)
       = (\<lparr>buf_A = [Fin 4], buf_b = [Fin 8], buf_x = [Fin 2], buf_r = [Fin 0], buf_p = [Fin 8],
           buf_Ap = [Fin 32]\<rparr>, Fin 0, True)"
    by (simp add: spec_iteration_def mat_vec_def inner_def cg_start_def new_double_def
        fresh_zero_def zero_dbl_def Let_def)
  from iteration_follows_spec [of 1 1 "[Fin 4]" "[Fin 8]" fresh_zero "Fin (1 / 1000)" "Fin 64"
      "Fin 64" 0, OF _ _ _ _ h it] it sp
  show ?thesis by (simp add: fresh_zero_def zero_dbl_def)
qed

text \<open>
  When the fresh \<open>Ap\<close> holds NaN, the first iteration does not compute \<open>Ap = A p\<close>:
  \<open>0.0 * NaN\<close> is NaN, so \<open>Ap\<close>, \<open>alpha\<close>, \<open>x\<close>, \<open>r\<close>, \<open>rr\<close> and \<open>p\<close> are not
  numbers and the test fails, where the iteration of the specification on
  \<open>A = [4]\<close>, \<open>b = [8]\<close> gives \<open>Ap = [32]\<close>, \<open>x = [2]\<close>, \<open>rr = 0\<close> and leaves the loop.
\<close>

theorem iteration_with_nan_in_fresh_Ap:
  "cg_body fresh_nan 1 1 (Fin (1 / 1000)) (Fin 64) (cg_start fresh_nan [Fin 4] [Fin 8] 1) (Fin 64)
     = Inr (\<lparr>buf_A = [Fin 4], buf_b = [Fin 8], buf_x = [NonFin], buf_r = [NonFin],
             buf_p = [NonFin], buf_Ap = [NonFin]\<rparr>, NonFin, False)
   \<and> spec_iteration 1 (Fin (1 / 1000)) (Fin 64) (cg_start fresh_nan [Fin 4] [Fin 8] 1) (Fin 64)
     = (\<lparr>buf_A = [Fin 4], buf_b = [Fin 8], buf_x = [Fin 2], buf_r = [Fin 0], buf_p = [Fin 8],
         buf_Ap = [Fin 32]\<rparr>, Fin 0, True)
   \<and> cg_body fresh_nan 1 1 (Fin (1 / 1000)) (Fin 64) (cg_start fresh_nan [Fin 4] [Fin 8] 1)
         (Fin 64)
     \<noteq> Inr (spec_iteration 1 (Fin (1 / 1000)) (Fin 64) (cg_start fresh_nan [Fin 4] [Fin 8] 1)
              (Fin 64))"
proof -
  have body: "cg_body fresh_nan 1 1 (Fin (1 / 1000)) (Fin 64)
                (cg_start fresh_nan [Fin 4] [Fin 8] 1) (Fin 64)
     = Inr (\<lparr>buf_A = [Fin 4], buf_b = [Fin 8], buf_x = [NonFin], buf_r = [NonFin],
             buf_p = [NonFin], buf_Ap = [NonFin]\<rparr>, NonFin, False)"
    by (simp add: cg_eval cg_start_def fresh_nan_def)
  have spec: "spec_iteration 1 (Fin (1 / 1000)) (Fin 64) (cg_start fresh_nan [Fin 4] [Fin 8] 1)
                (Fin 64)
     = (\<lparr>buf_A = [Fin 4], buf_b = [Fin 8], buf_x = [Fin 2], buf_r = [Fin 0], buf_p = [Fin 8],
         buf_Ap = [Fin 32]\<rparr>, Fin 0, True)"
    by (simp add: spec_iteration_def mat_vec_def inner_def cg_start_def new_double_def
        fresh_nan_def zero_dbl_def Let_def)
  show ?thesis unfolding body spec by simp
qed

subsection \<open>The identity matrix\<close>

lemma identity_nth:
  assumes "r < n" "c < n"
  shows "identity n ! (r * n + c) = (if r = c then 1 else 0)"
proof -
  have "r * n + c < r * n + n" using assms(2) by simp
  also have "\<dots> = Suc r * n" by simp
  also have "\<dots> \<le> n * n" using assms(1) by (intro mult_le_mono1) simp
  finally have "r * n + c < n * n" .
  moreover have "(r * n + c) div n = r" "(r * n + c) mod n = c"
    using assms(2) by simp_all
  ultimately show ?thesis by (simp add: identity_def)
qed

lemma sum_list_delta:
  assumes "r < n"
  shows "sum_list (map (\<lambda>c. if r = c then f c else (0::real)) [0..<n]) = f r"
proof -
  have "sum_list (map (\<lambda>c. if r = c then f c else 0) [0..<n])
        = (\<Sum>c\<in>{0..<n}. if r = c then f c else 0)"
    by (simp add: interv_sum_list_conv_sum_set_nat)
  also have "\<dots> = f r" using assms by simp
  finally show ?thesis .
qed

lemma mat_vec_identity:
  assumes "length bs = n"
  shows "mat_vec (identity n) (map Fin bs) n = map Fin bs"
proof -
  have row: "sum_list (map (\<lambda>c. identity n ! (r * n + c) * map Fin bs ! c) [0..<n]) = Fin (bs ! r)"
    if "r < n" for r
  proof -
    have "map (\<lambda>c. identity n ! (r * n + c) * map Fin bs ! c) [0..<n]
          = map (\<lambda>c. Fin (if r = c then bs ! c else 0)) [0..<n]"
      using that assms by (intro map_cong refl) (simp add: identity_nth zero_dbl_def one_dbl_def)
    then show ?thesis
      using that by (simp only: sum_list_Fin sum_list_delta)
  qed
  have "mat_vec (identity n) (map Fin bs) n = map (\<lambda>r. Fin (bs ! r)) [0..<n]"
    unfolding mat_vec_def by (intro map_cong refl row) simp
  also have "\<dots> = map Fin (map ((!) bs) [0..<length bs])"
    using assms by simp
  also have "\<dots> = map Fin bs" by (simp only: map_nth)
  finally show ?thesis .
qed

lemma inner_Fin:
  assumes "length us = n" "length vs = n"
  shows "inner (map Fin us) (map Fin vs) n = Fin (sum_list (map (\<lambda>i. us ! i * vs ! i) [0..<n]))"
proof -
  have "map (\<lambda>i. map Fin us ! i * map Fin vs ! i) [0..<n]
        = map (\<lambda>i. Fin (us ! i * vs ! i)) [0..<n]"
    using assms by (intro map_cong refl) simp
  then show ?thesis by (simp only: inner_def sum_list_Fin)
qed

lemma sum_squares_positive:
  assumes "i < n" "bs ! i \<noteq> (0::real)"
  shows "0 < sum_list (map (\<lambda>i. bs ! i * bs ! i) [0..<n])"
proof -
  have "sum_list (map (\<lambda>i. bs ! i * bs ! i) [0..<n]) = (\<Sum>i\<in>{0..<n}. bs ! i * bs ! i)"
    by (simp add: interv_sum_list_conv_sum_set_nat)
  also have "0 < \<dots>"
  proof (rule sum_pos2)
    show "i \<in> {0..<n}" using assms(1) by simp
    show "0 < bs ! i * bs ! i" using assms(2) by (auto simp: zero_less_mult_iff)
  qed simp_all
  finally show ?thesis .
qed


subsection \<open>C6: the identity matrix\<close>

text \<open>
  Claim C6, for a positive tolerance. For \<open>A\<close> the \<open>n * n\<close> identity matrix, every
  right-hand side \<open>b\<close> of \<open>n\<close> numbers that are not all zero, every \<open>rel_error > 0\<close>
  (in particular \<open>0 < rel_error < 1\<close>) and \<open>max_iters \<ge> 1\<close>, the solver returns
  \<open>x = b\<close> and leaves the loop in iteration 1, reporting that it converged in 1
  iteration with relative error 0: in the first iteration \<open>alpha = 1\<close> and the residual
  \<open>r\<close> becomes the zero vector. Here \<open>size_mpi \<ge> 1\<close> divides \<open>n\<close>, \<open>x\<close> has \<open>n\<close>
  cells, and the cells of the fresh buffer \<open>Ap\<close> hold finite numbers.
\<close>

theorem identity_one_iteration:
  assumes "0 < size_mpi" "size_mpi dvd n"
    and "length bs = n" "\<exists>i<n. bs ! i \<noteq> 0" "length x = n"
    and "\<forall>i<n. junk i \<noteq> NonFin"
    and "1 \<le> max_iters" "0 < t"
  shows "conjugate_gradients junk size_mpi (identity n) (map Fin bs) x n max_iters (Fin t)
           = Inr \<lparr>res_A = identity n, res_b = map Fin bs, res_x = map Fin bs,
                  res_num_iters = 1, res_log = Converged 1 0\<rparr>
         \<and> cg_body junk size_mpi n (Fin t) (inner (map Fin bs) (map Fin bs) n)
               (cg_start junk (identity n) (map Fin bs) n) (inner (map Fin bs) (map Fin bs) n)
             = Inr ((cg_start junk (identity n) (map Fin bs) n)
                      \<lparr>buf_Ap := map Fin bs, buf_x := map Fin bs, buf_r := replicate n 0\<rparr>,
                    0, True)
         \<and> inner (map Fin bs) (map Fin bs) n
               / inner (map Fin bs) (mat_vec (identity n) (map Fin bs) n) n = 1"
proof -
  let ?b = "map Fin bs"
  let ?m0 = "cg_start junk (identity n) ?b n"
  define q where "q = sum_list (map (\<lambda>i. bs ! i * bs ! i) [0..<n])"
  from assms(4) have q: "0 < q" unfolding q_def by (auto intro: sum_squares_positive)
  have bb: "inner ?b ?b n = Fin q"
    using assms(3) by (simp add: inner_Fin q_def)
  have Ap: "mat_vec (identity n) ?b n = ?b"
    using assms(3) by (rule mat_vec_identity)
  have alpha: "inner ?b ?b n / inner ?b (mat_vec (identity n) ?b n) n = 1"
    using q by (simp add: Ap bb one_dbl_def)
  have xs: "map (\<lambda>i. replicate n 0 ! i + ?b ! i) [0..<n] = ?b"
  proof -
    have "map (\<lambda>i. replicate n 0 ! i + ?b ! i) [0..<n] = map ((!) ?b) [0..<length ?b]"
      using assms(3) by (intro map_cong) simp_all
    then show ?thesis by (simp only: map_nth)
  qed
  have rs: "map (\<lambda>i. ?b ! i - ?b ! i) [0..<n] = replicate n 0"
  proof -
    have "map (\<lambda>i. ?b ! i - ?b ! i) [0..<n] = map (\<lambda>i. 0) [0..<n]"
      using assms(3) by (intro map_cong) (simp_all add: zero_dbl_def)
    then show ?thesis by (simp add: map_replicate_const)
  qed
  have test: "dlt (dsqrt (0 / Fin q)) (Fin t)"
    using q assms(8) by (simp add: zero_dbl_def)
  have spec: "spec_iteration n (Fin t) (Fin q) ?m0 (Fin q)
              = (?m0\<lparr>buf_Ap := ?b, buf_x := ?b, buf_r := replicate n 0\<rparr>, 0, True)"
  proof -
    have one: "Fin 1 * d = d" for d by (cases d) simp_all
    show ?thesis
      unfolding spec_iteration_def Let_def
      using test q by (simp add: cg_start_def Ap bb one xs rs inner_zero)
  qed
  have "mem_ok n ?m0" using assms(3) by (intro mem_ok_start) (simp_all add: identity_def)
  moreover have "ap_ok n ?m0" using assms(6) by (rule ap_ok_start)
  ultimately have body: "cg_body junk size_mpi n (Fin t) (Fin q) ?m0 (Fin q)
      = Inr (?m0\<lparr>buf_Ap := ?b, buf_x := ?b, buf_r := replicate n 0\<rparr>, 0, True)"
    using assms(1,2) by (simp add: cg_body_refines spec)
  have loop: "cg_loop junk size_mpi n max_iters (Fin t) (Fin q) 1 ?m0 (Fin q)
      = Inr (?m0\<lparr>buf_Ap := ?b, buf_x := ?b, buf_r := replicate n 0\<rparr>, 0, 1)"
    using assms(7) by (subst cg_loop.simps) (simp add: body)
  have "conjugate_gradients junk size_mpi (identity n) ?b x n max_iters (Fin t)
           = Inr \<lparr>res_A = identity n, res_b = ?b, res_x = ?b,
                  res_num_iters = 1, res_log = Converged 1 0\<rparr>"
    using assms(1,3,5,7) q
    by (simp add: cg_unfold bb loop) (simp add: cg_start_def zero_dbl_def)
  with body alpha show ?thesis by (simp add: bb)
qed

theorem identity_one_iteration_witness:
  "0 < (2::nat) \<and> (2::nat) dvd 2 \<and> length [3, -1 :: real] = 2
   \<and> (0::nat) < 2 \<and> [3, -1 :: real] ! 0 \<noteq> 0 \<and> length [Fin 7, Fin 7] = 2
   \<and> fresh_zero 0 \<noteq> NonFin \<and> fresh_zero 1 \<noteq> NonFin
   \<and> (1::int) \<le> 10 \<and> (0::real) < 1 / 1000
   \<and> conjugate_gradients fresh_zero 2 (identity 2) (map Fin [3, -1]) [Fin 7, Fin 7] 2 10
        (Fin (1 / 1000))
       = Inr \<lparr>res_A = identity 2, res_b = map Fin [3, -1], res_x = map Fin [3, -1],
              res_num_iters = 1, res_log = Converged 1 0\<rparr>"
proof -
  have h1: "\<exists>i<2. [3, -1 :: real] ! i \<noteq> 0" by (intro exI [of _ 0]) simp
  have h2: "\<forall>i<2. fresh_zero i \<noteq> NonFin" by (simp add: fresh_zero_def zero_dbl_def)
  from identity_one_iteration [of 2 2 "[3, -1]" "[Fin 7, Fin 7]" fresh_zero 10 "1 / 1000",
      OF _ _ _ h1 _ h2]
  show ?thesis by (simp add: fresh_zero_def zero_dbl_def)
qed

theorem identity_zero_tolerance:
  "conjugate_gradients fresh_zero 1 (identity 1) [Fin 1] [Fin 0] 1 2 (Fin 0)
   = Inr \<lparr>res_A = [Fin 1], res_b = [Fin 1], res_x = [NonFin], res_num_iters = 3,
          res_log = DidNotConverge 2 NonFin\<rparr>"
  by (simp add: cg_eval)

end
